theory Spec2Isabelle
  imports Main
begin

section \<open>Python strings\<close>

text \<open>
  A Python \<^verbatim>\<open>str\<close> is a sequence of Unicode code points and \<^verbatim>\<open>len\<close> counts
  code points, so a string is modelled as the list of its code points.
\<close>

type_synonym pystr = "nat list"

definition lit :: "string \<Rightarrow> pystr" where
  "lit s = map of_char s"

definition NL :: nat where
  "NL = 10"

text \<open>
  \<^verbatim>\<open>str.isspace\<close> on one character; the regular expression class \<^verbatim>\<open>\s\<close> of a
  \<^verbatim>\<open>str\<close> pattern accepts the same code points.
\<close>

definition isspace :: "nat \<Rightarrow> bool" where
  "isspace c \<longleftrightarrow>
     (9 \<le> c \<and> c \<le> 13) \<or> (28 \<le> c \<and> c \<le> 32) \<or> c = 133 \<or> c = 160 \<or> c = 5760 \<or>
     (8192 \<le> c \<and> c \<le> 8202) \<or> c = 8232 \<or> c = 8233 \<or> c = 8239 \<or> c = 8287 \<or> c = 12288"

text \<open>\<^verbatim>\<open>s.strip()\<close>\<close>

definition strip :: "pystr \<Rightarrow> pystr" where
  "strip s = rev (dropWhile isspace (rev (dropWhile isspace s)))"

text \<open>
  \<^verbatim>\<open>s.split('\n')\<close>: one piece per line, \<open>n\<close> newlines give \<open>n + 1\<close> pieces.
  The first argument is the line being read, reversed.
\<close>

fun split_nl_from :: "pystr \<Rightarrow> pystr \<Rightarrow> pystr list" where
  "split_nl_from cur [] = [rev cur]"
| "split_nl_from cur (c # cs) =
     (if c = NL then rev cur # split_nl_from [] cs else split_nl_from (c # cur) cs)"

definition split_nl :: "pystr \<Rightarrow> pystr list" where
  "split_nl s = split_nl_from [] s"

text \<open>
  \<^verbatim>\<open>s.split()\<close>: the maximal runs of non-whitespace characters. The first
  argument is the word being read, reversed.
\<close>

fun split_ws_from :: "pystr \<Rightarrow> pystr \<Rightarrow> pystr list" where
  "split_ws_from cur [] = (if cur = [] then [] else [rev cur])"
| "split_ws_from cur (c # cs) =
     (if isspace c then (if cur = [] then split_ws_from [] cs else rev cur # split_ws_from [] cs)
      else split_ws_from (c # cur) cs)"

definition split_ws :: "pystr \<Rightarrow> pystr list" where
  "split_ws s = split_ws_from [] s"

text \<open>\<^verbatim>\<open>sep.join(parts)\<close>\<close>

fun join :: "pystr \<Rightarrow> pystr list \<Rightarrow> pystr" where
  "join sep [] = []"
| "join sep [p] = p"
| "join sep (p # q # ps) = p @ sep @ join sep (q # ps)"

subsection \<open>\<^verbatim>\<open>re.split(r"\n\s*\n", text)\<close>\<close>

text \<open>
  The pattern is a newline, then whitespace matched greedily, then a newline. A match
  can only start at a newline. There \<^verbatim>\<open>\s*\<close> first takes the whole run of whitespace
  that follows and gives characters back one at a time until the character after it is
  a newline: the match ends at the last newline of that run. \<open>match_blank\<close> gets the
  text after the starting newline and returns what is left after the match, if any.
\<close>

definition match_blank :: "pystr \<Rightarrow> pystr option" where
  "match_blank cs =
     (let k = length (dropWhile (\<lambda>c. c \<noteq> NL) (rev (takeWhile isspace cs)))
      in if k = 0 then None else Some (drop k cs))"

lemma match_blank_shorter: "match_blank cs = Some rest \<Longrightarrow> length rest \<le> length cs"
  by (auto simp: match_blank_def Let_def split: if_splits)

text \<open>
  \<^verbatim>\<open>re.split\<close> scans from the left, cuts at the leftmost match and goes on after
  it. The first argument is the piece being read, reversed.
\<close>

function re_split_blank :: "pystr \<Rightarrow> pystr \<Rightarrow> pystr list" where
  "re_split_blank cur [] = [rev cur]"
| "re_split_blank cur (c # cs) =
     (if c = NL then
        (case match_blank cs of
           Some rest \<Rightarrow> rev cur # re_split_blank [] rest
         | None \<Rightarrow> re_split_blank (c # cur) cs)
      else re_split_blank (c # cur) cs)"
  by pat_completeness auto
termination
  by (relation "measure (\<lambda>(cur, s). length s)") (auto dest: match_blank_shorter)

section \<open>Text extractor\<close>

text \<open>
  The loop shared by both variants of \<^verbatim>\<open>first_long_paragraph\<close>:
  \<^verbatim>\<open>
  for p in pieces:
      p = p.strip()
      if len(p) >= min_len:
          return p
  return ""
  \<close>
\<close>

fun first_long :: "int \<Rightarrow> pystr list \<Rightarrow> pystr" where
  "first_long min_len [] = []"
| "first_long min_len (p # ps) =
     (if int (length (strip p)) \<ge> min_len then strip p else first_long min_len ps)"

text \<open>
  \<^verbatim>\<open>generate_spanish_paragraphs_fixed.py\<close>: the pieces are \<^verbatim>\<open>text.split('\n')\<close>.
  \<^verbatim>\<open>generate_spanish_paragraphs.py\<close> stores this function with the separator
  written \<^verbatim>\<open>'\\n'\<close>, the two characters backslash and n, in a file that does not
  parse; the definition is the function of the \<^verbatim>\<open>_fixed\<close> file and says nothing
  of that one.
\<close>

definition first_long_paragraph :: "pystr \<Rightarrow> int \<Rightarrow> pystr" where
  "first_long_paragraph text min_len = first_long min_len (split_nl text)"

definition MIN_PARAGRAPH_LEN :: int where
  "MIN_PARAGRAPH_LEN = 120"

text \<open>\<^verbatim>\<open>generate_spanish_paragraphs_v2.py\<close>: the pieces are \<^verbatim>\<open>re.split(r"\n\s*\n", text)\<close>.\<close>

definition first_long_paragraph_v2 :: "pystr \<Rightarrow> int \<Rightarrow> pystr" where
  "first_long_paragraph_v2 text min_len = first_long min_len (re_split_blank [] text)"

section \<open>Blocks between blank lines\<close>

text \<open>
  The splitting into blocks, told by lines. The text is cut into its lines. A
  boundary line is a line, other than the first and the last, that satisfies
  \<open>boundary\<close>; a run of boundary lines separates two blocks, and a block is the lines
  between two runs, joined by newlines again. \<open>blocks_in\<close> has the block read so
  far and the lines that follow; \<open>blocks_after\<close> has the lines that follow a
  boundary line. A line is blank when it has whitespace only.
\<close>

definition blank :: "pystr \<Rightarrow> bool" where
  "blank l \<longleftrightarrow> list_all isspace l"

fun blocks_in :: "(pystr \<Rightarrow> bool) \<Rightarrow> pystr \<Rightarrow> pystr list \<Rightarrow> pystr list"
  and blocks_after :: "(pystr \<Rightarrow> bool) \<Rightarrow> pystr list \<Rightarrow> pystr list" where
  "blocks_in boundary cur [] = [cur]"
| "blocks_in boundary cur [l] = [cur @ NL # l]"
| "blocks_in boundary cur (l # l' # ls) =
     (if boundary l then cur # blocks_after boundary (l' # ls)
      else blocks_in boundary (cur @ NL # l) (l' # ls))"
| "blocks_after boundary [] = []"
| "blocks_after boundary [l] = [l]"
| "blocks_after boundary (l # l' # ls) =
     (if boundary l then blocks_after boundary (l' # ls)
      else blocks_in boundary l (l' # ls))"

definition blocks_between :: "(pystr \<Rightarrow> bool) \<Rightarrow> pystr \<Rightarrow> pystr list" where
  "blocks_between boundary text =
     (case split_nl text of [] \<Rightarrow> [] | l # ls \<Rightarrow> blocks_in boundary l ls)"

text \<open>What is left of a text after the match of \<^verbatim>\<open>\s*\n\<close> at its start, if there is one.\<close>

definition after_blank :: "pystr \<Rightarrow> pystr" where
  "after_blank s = (case match_blank s of Some r \<Rightarrow> r | None \<Rightarrow> s)"

text \<open>
  The extractor as the specification words it: the blocks are separated by one or more
  consecutive newline-only lines, that is empty lines, and the result is the first
  block whose trimmed length reaches \<open>min_len\<close>, or none.
\<close>

definition extract_first_paragraph :: "pystr \<Rightarrow> int \<Rightarrow> pystr option" where
  "extract_first_paragraph raw_text min_len =
     find (\<lambda>p. min_len \<le> int (length p)) (map strip (blocks_between (\<lambda>l. l = []) raw_text))"

section \<open>Exceptions\<close>

text \<open>
  The exceptions that reach the orchestrator. \<^verbatim>\<open>StopIteration\<close> is the one it raises
  itself to leave both loops; \<^verbatim>\<open>RuntimeError\<close> is what the adapters raise;
  \<^verbatim>\<open>RequestException\<close> and \<^verbatim>\<open>ValueError\<close> stand for the transport and
  parsing faults of the libraries. All four derive from \<^verbatim>\<open>Exception\<close>.
  \<^verbatim>\<open>KeyboardInterrupt\<close> derives from \<^verbatim>\<open>BaseException\<close> only, so
  \<^verbatim>\<open>except Exception\<close> does not catch it.
\<close>

datatype py_exception =
  StopIteration | RuntimeError | RequestException | ValueError | KeyboardInterrupt

fun is_Exception :: "py_exception \<Rightarrow> bool" where
  "is_Exception KeyboardInterrupt = False"
| "is_Exception _ = True"

text \<open>A fault of a source: any \<^verbatim>\<open>Exception\<close> other than \<^verbatim>\<open>StopIteration\<close>.\<close>

definition is_fault :: "py_exception \<Rightarrow> bool" where
  "is_fault e \<longleftrightarrow> is_Exception e \<and> e \<noteq> StopIteration"

section \<open>Records and producers\<close>

text \<open>The tuple \<^verbatim>\<open>(paragraph, tipo, url)\<close>.\<close>

type_synonym row = "pystr \<times> string \<times> pystr"

fun text_of :: "row \<Rightarrow> pystr" where
  "text_of (paragraph, tipo, url) = paragraph"

fun url_of :: "row \<Rightarrow> pystr" where
  "url_of (paragraph, tipo, url) = url"

text \<open>
  What \<^verbatim>\<open>gen()\<close> delivers when it is iterated to its end: the records it
  yields, in order, and then either the normal end of the iteration or an exception.
  A list built by \<^verbatim>\<open>lambda: [adapter()]\<close> has one record and returns, or has none
  and raises; a generator may raise after some records. The orchestrator reads the
  records one at a time and may stop before the end.
\<close>

datatype ending = Returns | Raises py_exception

record producer =
  items :: "row list"
  ending :: ending

section \<open>Source adapters\<close>

text \<open>
  \<^verbatim>\<open>requests.get\<close> either raises or returns a response, of which the adapters
  read \<^verbatim>\<open>status_code\<close>, \<^verbatim>\<open>text\<close> and \<^verbatim>\<open>url\<close> (the URL after redirects).
  The network is a parameter \<open>get\<close> of every adapter.
\<close>

record response =
  status_code :: int
  resp_text :: pystr
  resp_url :: pystr

type_synonym http = "pystr \<Rightarrow> py_exception + response"

text \<open>
  \<^verbatim>\<open>[clean_html(p.get_text()) for p in soup.find_all("p")]\<close> of a page is the
  parameter \<open>p_texts\<close>; \<^verbatim>\<open>feedparser.parse(rss_url).entries\<close> with
  \<^verbatim>\<open>entry.get("link")\<close> taken of each entry is the parameter \<open>parse\<close>.
  \<^verbatim>\<open>time.sleep\<close> does not change what an adapter returns and is left out.
\<close>

definition yield :: "row \<Rightarrow> producer \<Rightarrow> producer" where
  "yield r p = p\<lparr>items := r # items p\<rparr>"

text \<open>
  \<^verbatim>\<open>
  for entry in feed.entries:
      link = entry.get("link")
      if not link:
          continue
      try:
          resp = requests.get(link, headers=HEADERS, timeout=12)
          if resp.status_code != 200:
              continue
          soup = BeautifulSoup(resp.text, "html.parser")
          paragraphs = [clean_html(p.get_text()) for p in soup.find_all("p")]
          paragraph = first_long_paragraph("\n".join(paragraphs))
          if paragraph:
              yield paragraph, tipo, link
      except Exception:
          continue
  \<close>
  \<open>flp\<close> is the file's own \<^verbatim>\<open>first_long_paragraph\<close>.
\<close>

fun rss_entries ::
  "(pystr \<Rightarrow> int \<Rightarrow> pystr) \<Rightarrow> http \<Rightarrow> (pystr \<Rightarrow> pystr list) \<Rightarrow> string
     \<Rightarrow> pystr option list \<Rightarrow> producer" where
  "rss_entries flp get p_texts tipo [] = \<lparr>items = [], ending = Returns\<rparr>"
| "rss_entries flp get p_texts tipo (entry # entries) =
     (case entry of
        None \<Rightarrow> rss_entries flp get p_texts tipo entries
      | Some link \<Rightarrow>
          if link = [] then rss_entries flp get p_texts tipo entries
          else
            (case get link of
               Inl e \<Rightarrow>
                 if is_Exception e then rss_entries flp get p_texts tipo entries
                 else \<lparr>items = [], ending = Raises e\<rparr>
             | Inr resp \<Rightarrow>
                 if status_code resp \<noteq> 200 then rss_entries flp get p_texts tipo entries
                 else
                   let paragraph = flp (join [NL] (p_texts (resp_text resp))) 120 in
                   if paragraph \<noteq> [] then
                     yield (paragraph, tipo, link) (rss_entries flp get p_texts tipo entries)
                   else rss_entries flp get p_texts tipo entries))"

definition paragraphs_from_rss_with ::
  "(pystr \<Rightarrow> int \<Rightarrow> pystr) \<Rightarrow> http \<Rightarrow> (pystr \<Rightarrow> pystr list)
     \<Rightarrow> (pystr \<Rightarrow> py_exception + pystr option list) \<Rightarrow> pystr \<Rightarrow> string \<Rightarrow> producer" where
  "paragraphs_from_rss_with flp get p_texts parse rss_url tipo =
     (case parse rss_url of
        Inl e \<Rightarrow> \<lparr>items = [], ending = Raises e\<rparr>
      | Inr entries \<Rightarrow> rss_entries flp get p_texts tipo entries)"

definition paragraphs_from_rss ::
  "http \<Rightarrow> (pystr \<Rightarrow> pystr list) \<Rightarrow> (pystr \<Rightarrow> py_exception + pystr option list)
     \<Rightarrow> pystr \<Rightarrow> string \<Rightarrow> producer" where
  "paragraphs_from_rss = paragraphs_from_rss_with first_long_paragraph"

definition paragraphs_from_rss_v2 ::
  "http \<Rightarrow> (pystr \<Rightarrow> pystr list) \<Rightarrow> (pystr \<Rightarrow> py_exception + pystr option list)
     \<Rightarrow> pystr \<Rightarrow> string \<Rightarrow> producer" where
  "paragraphs_from_rss_v2 = paragraphs_from_rss_with first_long_paragraph_v2"

text \<open>\<^verbatim>\<open>str(n)\<close> of an integer, for the Gutenberg URLs.\<close>

function str_nat :: "nat \<Rightarrow> pystr" where
  "str_nat n = (if n < 10 then [48 + n] else str_nat (n div 10) @ [48 + n mod 10])"
  by pat_completeness auto
termination
  by (relation "measure id") auto

declare str_nat.simps [simp del]

definition str_int :: "int \<Rightarrow> pystr" where
  "str_int i = (if i < 0 then 45 # str_nat (nat (- i)) else str_nat (nat i))"

text \<open>
  \<^verbatim>\<open>generate_spanish_paragraphs_fixed.py\<close>:
  \<^verbatim>\<open>
  url = f"https://www.gutenberg.org/files/{gid}/{gid}-0.txt"
  resp = requests.get(url, headers=HEADERS, timeout=15)
  if resp.status_code != 200:
      raise RuntimeError("No descarga Gutenberg")
  text = resp.text
  paragraph = first_long_paragraph(text)
  return paragraph, "novela", url
  \<close>
\<close>

definition gutenberg_files_url :: "int \<Rightarrow> pystr" where
  "gutenberg_files_url gid =
     lit ''https://www.gutenberg.org/files/'' @ str_int gid @ lit ''/'' @ str_int gid @ lit ''-0.txt''"

definition gutenberg_cache_url :: "int \<Rightarrow> pystr" where
  "gutenberg_cache_url gid =
     lit ''https://www.gutenberg.org/cache/epub/'' @ str_int gid @ lit ''/pg'' @ str_int gid @ lit ''.txt''"

definition paragraph_from_gutenberg :: "http \<Rightarrow> int \<Rightarrow> py_exception + row" where
  "paragraph_from_gutenberg get gid =
     (let url = gutenberg_files_url gid in
      case get url of
        Inl e \<Rightarrow> Inl e
      | Inr resp \<Rightarrow>
          if status_code resp \<noteq> 200 then Inl RuntimeError
          else Inr (first_long_paragraph (resp_text resp) 120, ''novela'', url))"

text \<open>
  \<^verbatim>\<open>generate_spanish_paragraphs_v2.py\<close>:
  \<^verbatim>\<open>
  for url in urls_try:
      resp = requests.get(url, headers=HEADERS, timeout=20)
      if resp.status_code == 200:
          paragraph = first_long_paragraph(resp.text)
          if paragraph:
              time.sleep(random.uniform(*HEAVY_DELAY_RANGE))
              return paragraph, "novela", url
  raise RuntimeError("Gutenberg fallo")
  \<close>
\<close>

fun gutenberg_try :: "http \<Rightarrow> pystr list \<Rightarrow> py_exception + row" where
  "gutenberg_try get [] = Inl RuntimeError"
| "gutenberg_try get (url # urls) =
     (case get url of
        Inl e \<Rightarrow> Inl e
      | Inr resp \<Rightarrow>
          if status_code resp = 200 then
            let paragraph = first_long_paragraph_v2 (resp_text resp) MIN_PARAGRAPH_LEN in
            if paragraph \<noteq> [] then Inr (paragraph, ''novela'', url)
            else gutenberg_try get urls
          else gutenberg_try get urls)"

definition paragraph_from_gutenberg_v2 :: "http \<Rightarrow> int \<Rightarrow> py_exception + row" where
  "paragraph_from_gutenberg_v2 get gid =
     gutenberg_try get [gutenberg_cache_url gid, gutenberg_files_url gid]"

text \<open>
  \<^verbatim>\<open>
  resp = requests.get(url, headers=HEADERS, timeout=20)
  resp.encoding = "utf-8"
  if resp.status_code != 200:
      raise RuntimeError("Cervantes fallo")
  soup = BeautifulSoup(resp.text, "html.parser")
  paragraphs = [clean_html(p.get_text()) for p in soup.find_all("p")]
  paragraph = first_long_paragraph("\n".join(paragraphs))
  time.sleep(random.uniform(*HEAVY_DELAY_RANGE))
  return paragraph, "novela", url
  \<close>
\<close>

definition paragraph_from_cervantes ::
  "http \<Rightarrow> (pystr \<Rightarrow> pystr list) \<Rightarrow> pystr \<Rightarrow> py_exception + row" where
  "paragraph_from_cervantes get p_texts url =
     (case get url of
        Inl e \<Rightarrow> Inl e
      | Inr resp \<Rightarrow>
          if status_code resp \<noteq> 200 then Inl RuntimeError
          else
            let paragraph =
              first_long_paragraph_v2 (join [NL] (p_texts (resp_text resp))) MIN_PARAGRAPH_LEN
            in Inr (paragraph, ''novela'', url))"

text \<open>
  \<^verbatim>\<open>re.sub(r"\{\{.*?\}\}", "", text, flags=re.DOTALL)\<close>: from the left, each
  \<^verbatim>\<open>{{\<close> is removed together with everything up to the nearest \<^verbatim>\<open>}}\<close>
  after it; a \<^verbatim>\<open>{{\<close> with no \<^verbatim>\<open>}}\<close> after it stays.
\<close>

fun after_close :: "pystr \<Rightarrow> pystr option" where
  "after_close (a # b # cs) = (if a = 125 \<and> b = 125 then Some cs else after_close (b # cs))"
| "after_close _ = None"

lemma after_close_shorter: "after_close cs = Some rest \<Longrightarrow> length rest < length cs"
  by (induction cs rule: after_close.induct) (auto split: if_splits)

function strip_templates :: "pystr \<Rightarrow> pystr" where
  "strip_templates (a # b # cs) =
     (if a = 123 \<and> b = 123 then
        (case after_close cs of
           Some rest \<Rightarrow> strip_templates rest
         | None \<Rightarrow> a # strip_templates (b # cs))
      else a # strip_templates (b # cs))"
| "strip_templates [a] = [a]"
| "strip_templates [] = []"
  by pat_completeness auto
termination
  by (relation "measure length") (auto dest: after_close_shorter)

text \<open>
  \<^verbatim>\<open>
  resp = requests.get(url + "?action=raw", headers=HEADERS, timeout=15)
  if resp.status_code != 200:
      raise RuntimeError("Wikisource fallo")
  text = resp.text
  text = re.sub(r"\{\{.*?\}\}", "", text, flags=re.DOTALL)
  paragraph = first_long_paragraph(text)
  return paragraph, "cuento", url
  \<close>
\<close>

definition paragraph_from_wikisource :: "http \<Rightarrow> pystr \<Rightarrow> py_exception + row" where
  "paragraph_from_wikisource get url =
     (case get (url @ lit ''?action=raw'') of
        Inl e \<Rightarrow> Inl e
      | Inr resp \<Rightarrow>
          if status_code resp \<noteq> 200 then Inl RuntimeError
          else
            let paragraph =
              first_long_paragraph_v2 (strip_templates (resp_text resp)) MIN_PARAGRAPH_LEN
            in Inr (paragraph, ''cuento'', url))"

text \<open>
  \<^verbatim>\<open>
  data = requests.get(api_url, headers=HEADERS, timeout=10).json()
  extract = data.get("extract", "")
  url = data.get("content_urls", {}).get("desktop", {}).get("page", "")
  paragraph = first_long_paragraph(extract)
  if paragraph and url:
      return paragraph, "enciclopedia", url
  raise RuntimeError("Wikipedia vacio")
  \<close>
  The parameter \<open>summary\<close> decodes the body and reads the two fields.
\<close>

definition wikipedia_api_url :: pystr where
  "wikipedia_api_url = lit ''https://es.wikipedia.org/api/rest_v1/page/random/summary''"

definition random_wikipedia_paragraph_with ::
  "(pystr \<Rightarrow> int \<Rightarrow> pystr) \<Rightarrow> http \<Rightarrow> (pystr \<Rightarrow> py_exception + pystr \<times> pystr)
     \<Rightarrow> py_exception + row" where
  "random_wikipedia_paragraph_with flp get summary =
     (case get wikipedia_api_url of
        Inl e \<Rightarrow> Inl e
      | Inr resp \<Rightarrow>
          (case summary (resp_text resp) of
             Inl e \<Rightarrow> Inl e
           | Inr (extract, url) \<Rightarrow>
               let paragraph = flp extract 120 in
               if paragraph \<noteq> [] \<and> url \<noteq> [] then Inr (paragraph, ''enciclopedia'', url)
               else Inl RuntimeError))"

text \<open>
  \<^verbatim>\<open>
  resp = requests.get(CUENTOS_RANDOM_BASE, headers=HEADERS, timeout=10, allow_redirects=True)
  if resp.status_code != 200:
      raise RuntimeError("Cuento corto fallo")
  url = resp.url
  soup = BeautifulSoup(resp.text, "html.parser")
  paragraphs = [clean_html(p.get_text()) for p in soup.find_all("p")]
  paragraph = first_long_paragraph("\n".join(paragraphs))
  return paragraph, "cuento", url
  \<close>
\<close>

definition CUENTOS_RANDOM_BASE :: pystr where
  "CUENTOS_RANDOM_BASE = lit ''https://cuentosparadormir.com/random''"

definition random_cuento_paragraph_with ::
  "(pystr \<Rightarrow> int \<Rightarrow> pystr) \<Rightarrow> http \<Rightarrow> (pystr \<Rightarrow> pystr list) \<Rightarrow> py_exception + row" where
  "random_cuento_paragraph_with flp get p_texts =
     (case get CUENTOS_RANDOM_BASE of
        Inl e \<Rightarrow> Inl e
      | Inr resp \<Rightarrow>
          if status_code resp \<noteq> 200 then Inl RuntimeError
          else
            let url = resp_url resp;
                paragraph = flp (join [NL] (p_texts (resp_text resp))) 120
            in Inr (paragraph, ''cuento'', url))"

text \<open>\<^verbatim>\<open>lambda: [adapter()]\<close>: the list of the one record, or the adapter's exception.\<close>

definition one_shot :: "py_exception + row \<Rightarrow> producer" where
  "one_shot r =
     (case r of
        Inl e \<Rightarrow> \<lparr>items = [], ending = Raises e\<rparr>
      | Inr x \<Rightarrow> \<lparr>items = [x], ending = Returns\<rparr>)"

section \<open>Collection state\<close>

text \<open>
  \<open>collected\<close> and \<open>seen_urls\<close> are the two variables of \<^verbatim>\<open>main\<close>. The other
  two fields are not in the program: \<open>pulls\<close> logs every record the inner
  \<^verbatim>\<open>for\<close> received and \<open>calls\<close> counts the calls \<^verbatim>\<open>gen()\<close>, so that
  statements about what was fetched can be made.
\<close>

record collection =
  collected :: "row list"
  seen_urls :: "pystr set"
  pulls :: "row list"
  calls :: nat

definition init :: collection where
  "init = \<lparr>collected = [], seen_urls = {}, pulls = [], calls = 0\<rparr>"

text \<open>How the outer \<^verbatim>\<open>for\<close> was left.\<close>

datatype ended = LoopEnd | Break | Propagated py_exception

datatype message = Summary nat int | Collected nat | Warning | Warning_only nat | Saved

record report =
  printed :: "message list"
  csv :: "row list"

section \<open>Orchestrator of \<^verbatim>\<open>generate_spanish_paragraphs_v2.py\<close>\<close>

text \<open>
  The body of the \<^verbatim>\<open>try\<close>:
  \<^verbatim>\<open>
  for paragraph, tipo, url in gen():
      if url in seen_urls or domain(url) in {domain(u) for u in seen_urls}:
          continue
      if len(paragraph) < MIN_PARAGRAPH_LEN:
          continue
      collected.append((paragraph, tipo, url))
      seen_urls.add(url)
      if len(collected) >= goal:
          raise StopIteration
  \<close>
  The result is the state and the exception that left the block, if any. \<open>domain\<close>
  is \<^verbatim>\<open>tldextract\<close>'s registrable domain of a URL, a parameter of the model.
\<close>

fun drain_v2 ::
  "(pystr \<Rightarrow> pystr) \<Rightarrow> int \<Rightarrow> collection \<Rightarrow> row list \<Rightarrow> ending
     \<Rightarrow> collection \<times> py_exception option" where
  "drain_v2 domain goal st [] Returns = (st, None)"
| "drain_v2 domain goal st [] (Raises e) = (st, Some e)"
| "drain_v2 domain goal st ((paragraph, tipo, url) # rest) fin =
     (let st1 = st\<lparr>pulls := pulls st @ [(paragraph, tipo, url)]\<rparr> in
      if url \<in> seen_urls st1 \<or> domain url \<in> domain ` seen_urls st1 then
        drain_v2 domain goal st1 rest fin
      else if int (length paragraph) < MIN_PARAGRAPH_LEN then
        drain_v2 domain goal st1 rest fin
      else
        let st2 = st1\<lparr>collected := collected st1 @ [(paragraph, tipo, url)],
                         seen_urls := insert url (seen_urls st1)\<rparr> in
        if int (length (collected st2)) \<ge> goal then (st2, Some StopIteration)
        else drain_v2 domain goal st2 rest fin)"

text \<open>
  \<^verbatim>\<open>
  for gen in build_generators():
      try: ...
      except StopIteration:
          break
      except Exception:
          continue
  \<close>
  The list is the one \<^verbatim>\<open>build_generators\<close> returns, already shuffled.
\<close>

fun loop_v2 ::
  "(pystr \<Rightarrow> pystr) \<Rightarrow> int \<Rightarrow> collection \<Rightarrow> producer list \<Rightarrow> collection \<times> ended" where
  "loop_v2 domain goal st [] = (st, LoopEnd)"
| "loop_v2 domain goal st (gen # gens) =
     (case drain_v2 domain goal (st\<lparr>calls := Suc (calls st)\<rparr>) (items gen) (ending gen) of
        (st', None) \<Rightarrow> loop_v2 domain goal st' gens
      | (st', Some e) \<Rightarrow>
          if e = StopIteration then (st', Break)
          else if is_Exception e then loop_v2 domain goal st' gens
          else (st', Propagated e))"

text \<open>
  \<^verbatim>\<open>main\<close> after the loop: the summary line, the CSV, and the warning when
  \<^verbatim>\<open>len(collected) < goal\<close>. An exception the loop did not catch ends the program.
\<close>

definition main_v2 :: "(pystr \<Rightarrow> pystr) \<Rightarrow> int \<Rightarrow> producer list \<Rightarrow> py_exception + report" where
  "main_v2 domain goal gens =
     (case loop_v2 domain goal init gens of
        (st, Propagated e) \<Rightarrow> Inl e
      | (st, _) \<Rightarrow>
          Inr \<lparr>printed = [Summary (length (collected st)) goal, Saved] @
                          (if int (length (collected st)) < goal then [Warning] else []),
               csv = collected st\<rparr>)"

section \<open>Orchestrator of \<^verbatim>\<open>generate_spanish_paragraphs_fixed.py\<close>\<close>

text \<open>
  \<^verbatim>\<open>generate_spanish_paragraphs.py\<close> has the same loop with the constant 100 where
  the \<^verbatim>\<open>_fixed\<close> file has 1000; the constant is the argument \<open>limit\<close> here.
  As stored, that file has the quotes of its docstrings escaped and does not parse;
  the text of its loop has no escaped literal and is the text of the loop of the
  \<^verbatim>\<open>_fixed\<close> file, the constant apart.
  \<^verbatim>\<open>
  for paragraph, tipo, url in gen():
      if url not in seen_urls and len(paragraph.split()) > 20:
          collected.append((paragraph, tipo, url))
          seen_urls.add(url)
          if len(collected) >= 1000:
              raise StopIteration
  \<close>
\<close>

fun drain ::
  "int \<Rightarrow> collection \<Rightarrow> row list \<Rightarrow> ending \<Rightarrow> collection \<times> py_exception option" where
  "drain limit st [] Returns = (st, None)"
| "drain limit st [] (Raises e) = (st, Some e)"
| "drain limit st ((paragraph, tipo, url) # rest) fin =
     (let st1 = st\<lparr>pulls := pulls st @ [(paragraph, tipo, url)]\<rparr> in
      if url \<notin> seen_urls st1 \<and> length (split_ws paragraph) > 20 then
        let st2 = st1\<lparr>collected := collected st1 @ [(paragraph, tipo, url)],
                         seen_urls := insert url (seen_urls st1)\<rparr> in
        if int (length (collected st2)) \<ge> limit then (st2, Some StopIteration)
        else drain limit st2 rest fin
      else drain limit st1 rest fin)"

fun loop :: "int \<Rightarrow> collection \<Rightarrow> producer list \<Rightarrow> collection \<times> ended" where
  "loop limit st [] = (st, LoopEnd)"
| "loop limit st (gen # gens) =
     (case drain limit (st\<lparr>calls := Suc (calls st)\<rparr>) (items gen) (ending gen) of
        (st', None) \<Rightarrow> loop limit st' gens
      | (st', Some e) \<Rightarrow>
          if e = StopIteration then (st', Break)
          else if is_Exception e then loop limit st' gens
          else (st', Propagated e))"

definition main_with :: "int \<Rightarrow> producer list \<Rightarrow> py_exception + report" where
  "main_with limit gens =
     (case loop limit init gens of
        (st, Propagated e) \<Rightarrow> Inl e
      | (st, _) \<Rightarrow>
          Inr \<lparr>printed = [if int (length (collected st)) < limit
                           then Warning_only (length (collected st))
                           else Collected (length (collected st)), Saved],
               csv = collected st\<rparr>)"

definition main_fixed :: "producer list \<Rightarrow> py_exception + report" where
  "main_fixed = main_with 1000"

definition main :: "producer list \<Rightarrow> py_exception + report" where
  "main = main_with 100"

section \<open>Both loops as one\<close>

text \<open>
  The two orchestrators differ in the test that lets a record in. For the proofs the
  test becomes an argument: \<open>collect\<close> and \<open>collect_all\<close> are the two loops with
  the test \<open>acc\<close>, and each orchestrator is shown to be an instance.
\<close>

definition accepts_v2 :: "(pystr \<Rightarrow> pystr) \<Rightarrow> collection \<Rightarrow> row \<Rightarrow> bool" where
  "accepts_v2 domain st r \<longleftrightarrow>
     url_of r \<notin> seen_urls st \<and> domain (url_of r) \<notin> domain ` seen_urls st \<and>
     MIN_PARAGRAPH_LEN \<le> int (length (text_of r))"

definition accepts :: "collection \<Rightarrow> row \<Rightarrow> bool" where
  "accepts st r \<longleftrightarrow> url_of r \<notin> seen_urls st \<and> length (split_ws (text_of r)) > 20"

definition pull :: "row \<Rightarrow> collection \<Rightarrow> collection" where
  "pull r st = st\<lparr>pulls := pulls st @ [r]\<rparr>"

definition accept :: "row \<Rightarrow> collection \<Rightarrow> collection" where
  "accept r st = st\<lparr>collected := collected st @ [r], seen_urls := insert (url_of r) (seen_urls st)\<rparr>"

fun collect ::
  "(collection \<Rightarrow> row \<Rightarrow> bool) \<Rightarrow> int \<Rightarrow> collection \<Rightarrow> row list \<Rightarrow> ending
     \<Rightarrow> collection \<times> py_exception option" where
  "collect acc quota st [] Returns = (st, None)"
| "collect acc quota st [] (Raises e) = (st, Some e)"
| "collect acc quota st (r # rest) fin =
     (if acc st r then
        if int (length (collected st)) + 1 \<ge> quota then (accept r (pull r st), Some StopIteration)
        else collect acc quota (accept r (pull r st)) rest fin
      else collect acc quota (pull r st) rest fin)"

fun collect_all ::
  "(collection \<Rightarrow> row \<Rightarrow> bool) \<Rightarrow> int \<Rightarrow> collection \<Rightarrow> producer list \<Rightarrow> collection \<times> ended" where
  "collect_all acc quota st [] = (st, LoopEnd)"
| "collect_all acc quota st (gen # gens) =
     (case collect acc quota (st\<lparr>calls := Suc (calls st)\<rparr>) (items gen) (ending gen) of
        (st', None) \<Rightarrow> collect_all acc quota st' gens
      | (st', Some e) \<Rightarrow>
          if e = StopIteration then (st', Break)
          else if is_Exception e then collect_all acc quota st' gens
          else (st', Propagated e))"

text \<open>The seen set is the set of the URLs of the collected records.\<close>

definition seen_ok :: "collection \<Rightarrow> bool" where
  "seen_ok st \<longleftrightarrow> seen_urls st = url_of ` set (collected st)"

text \<open>No two collected records have the same key of their URLs.\<close>

definition unique_by :: "(pystr \<Rightarrow> 'k) \<Rightarrow> collection \<Rightarrow> bool" where
  "unique_by key st \<longleftrightarrow> seen_ok st \<and> distinct (map (\<lambda>r. key (url_of r)) (collected st))"

text \<open>The two tests on the text of a record.\<close>

definition long_enough :: "row \<Rightarrow> bool" where
  "long_enough r \<longleftrightarrow> MIN_PARAGRAPH_LEN \<le> int (length (text_of r))"

definition wordy :: "row \<Rightarrow> bool" where
  "wordy r \<longleftrightarrow> 20 < length (split_ws (text_of r))"

text \<open>
  Two states of a run: nothing collected and no long text received so far; and one
  record collected, which is the last one received.
\<close>

definition nothing_yet :: "collection \<Rightarrow> bool" where
  "nothing_yet st \<longleftrightarrow>
     collected st = [] \<and> seen_urls st = {} \<and> (\<forall>x\<in>set (pulls st). \<not> long_enough x)"

definition took_one :: "collection \<Rightarrow> bool" where
  "took_one st \<longleftrightarrow>
     (\<exists>r. collected st = [r] \<and> long_enough r \<and> pulls st \<noteq> [] \<and> last (pulls st) = r)"

section \<open>Sample data\<close>

text \<open>A text of 135 characters and 21 words, used where a concrete run is evaluated.\<close>

definition sample_text :: pystr where
  "sample_text = lit ''This is a sufficiently long paragraph text exceeding one hundred twenty characters in total length to pass the minimum threshold check.''"

text \<open>
  Two producers: a feed that yields the same URL twice, then a second URL of the same
  site, and then fails; and a feed of another site. The registrable domain is
  stood for by the first twelve characters of the URL.
\<close>

definition two_feeds :: "producer list" where
  "two_feeds =
     [\<lparr>items = [(sample_text, ''noticia'', lit ''http://a.es/1''),
                (sample_text, ''noticia'', lit ''http://a.es/1''),
                (sample_text, ''noticia'', lit ''http://a.es/2'')], ending = Raises RuntimeError\<rparr>,
      \<lparr>items = [(sample_text, ''blog'', lit ''http://b.es/1'')], ending = Returns\<rparr>]"

definition two_feeds_report :: report where
  "two_feeds_report =
     \<lparr>printed = [Warning_only 3, Saved],
      csv = [(sample_text, ''noticia'', lit ''http://a.es/1''),
             (sample_text, ''noticia'', lit ''http://a.es/2''),
             (sample_text, ''blog'', lit ''http://b.es/1'')]\<rparr>"

definition two_feeds_report_v2 :: report where
  "two_feeds_report_v2 =
     \<lparr>printed = [Summary 2 5, Saved, Warning],
      csv = [(sample_text, ''noticia'', lit ''http://a.es/1''),
             (sample_text, ''blog'', lit ''http://b.es/1'')]\<rparr>"

text \<open>The states in which the loops leave the run over the two feeds.\<close>

definition two_feeds_pulls :: "row list" where
  "two_feeds_pulls =
     [(sample_text, ''noticia'', lit ''http://a.es/1''),
      (sample_text, ''noticia'', lit ''http://a.es/1''),
      (sample_text, ''noticia'', lit ''http://a.es/2''),
      (sample_text, ''blog'', lit ''http://b.es/1'')]"

definition two_feeds_state :: collection where
  "two_feeds_state =
     \<lparr>collected = csv two_feeds_report,
      seen_urls = {lit ''http://a.es/1'', lit ''http://a.es/2'', lit ''http://b.es/1''},
      pulls = two_feeds_pulls, calls = 2\<rparr>"

definition two_feeds_state_v2 :: collection where
  "two_feeds_state_v2 =
     \<lparr>collected = csv two_feeds_report_v2,
      seen_urls = {lit ''http://a.es/1'', lit ''http://b.es/1''},
      pulls = two_feeds_pulls, calls = 2\<rparr>"

text \<open>
  A text of one word of 120 characters, and a text of 21 words and 41 characters.
\<close>

definition one_long_word :: pystr where
  "one_long_word = lit ''aaaaaaaaaaaaaaaaaaaaaaaaaaaaaaaaaaaaaaaaaaaaaaaaaaaaaaaaaaaaaaaaaaaaaaaaaaaaaaaaaaaaaaaaaaaaaaaaaaaaaaaaaaaaaaaaaaaaaaaa''"

definition many_short_words :: pystr where
  "many_short_words = lit ''a b c d e f g h i j k l m n o p q r s t u''"

text \<open>A site that answers every request with the sample text under another URL.\<close>

definition redirecting :: http where
  "redirecting u = Inr \<lparr>status_code = 200, resp_text = sample_text, resp_url = lit ''http://a.es/final''\<rparr>"

text \<open>A site that answers every request with an empty page.\<close>

definition empty_page :: http where
  "empty_page u = Inr \<lparr>status_code = 200, resp_text = [], resp_url = u\<rparr>"

text \<open>The state after the first record of the two feeds has been taken.\<close>

definition first_only :: collection where
  "first_only =
     \<lparr>collected = [(sample_text, ''noticia'', lit ''http://a.es/1'')],
      seen_urls = {lit ''http://a.es/1''},
      pulls = [(sample_text, ''noticia'', lit ''http://a.es/1'')], calls = 1\<rparr>"

section \<open>The orchestrators are instances\<close>

lemma drain_v2_collect: "drain_v2 d g st xs fin = collect (accepts_v2 d) g st xs fin"
proof (induction xs arbitrary: st)
  case Nil
  show ?case by (cases fin) simp_all
next
  case (Cons r rest)
  obtain par tipo url where r: "r = (par, tipo, url)"
    by (cases r) auto
  show ?case
    by (simp add: r Cons.IH accepts_v2_def pull_def accept_def Let_def)
qed

lemma drain_collect: "drain g st xs fin = collect accepts g st xs fin"
proof (induction xs arbitrary: st)
  case Nil
  show ?case by (cases fin) simp_all
next
  case (Cons r rest)
  obtain par tipo url where r: "r = (par, tipo, url)"
    by (cases r) auto
  show ?case
    by (simp add: r Cons.IH accepts_def pull_def accept_def Let_def)
qed

lemma loop_v2_collect: "loop_v2 d g st gens = collect_all (accepts_v2 d) g st gens"
  by (induction gens arbitrary: st) (simp_all add: drain_v2_collect split: prod.splits option.splits)

lemma loop_collect: "loop g st gens = collect_all accepts g st gens"
  by (induction gens arbitrary: st) (simp_all add: drain_collect split: prod.splits option.splits)

section \<open>Invariants of the loops\<close>

lemma collect_rule:
  assumes "P st"
    and skip: "\<And>s r. P s \<Longrightarrow> \<not> acc s r \<Longrightarrow> P (pull r s)"
    and take: "\<And>s r. P s \<Longrightarrow> acc s r \<Longrightarrow> P (accept r (pull r s))"
  shows "P (fst (collect acc g st xs fin))"
  using assms(1)
proof (induction xs arbitrary: st)
  case Nil
  then show ?case by (cases fin) simp_all
next
  case (Cons r rest)
  show ?case
  proof (cases "acc st r")
    case True
    with Cons.prems have P: "P (accept r (pull r st))" by (rule take)
    then have "P (fst (collect acc g (accept r (pull r st)) rest fin))"
      by (rule Cons.IH)
    with True P show ?thesis by simp
  next
    case False
    with Cons.prems have "P (pull r st)" by (rule skip)
    then have "P (fst (collect acc g (pull r st) rest fin))"
      by (rule Cons.IH)
    with False show ?thesis by simp
  qed
qed

lemma collect_all_rule:
  assumes "P st"
    and call: "\<And>s. P s \<Longrightarrow> P (s\<lparr>calls := Suc (calls s)\<rparr>)"
    and skip: "\<And>s r. P s \<Longrightarrow> \<not> acc s r \<Longrightarrow> P (pull r s)"
    and take: "\<And>s r. P s \<Longrightarrow> acc s r \<Longrightarrow> P (accept r (pull r s))"
  shows "P (fst (collect_all acc g st gens))"
  using assms(1)
proof (induction gens arbitrary: st)
  case Nil
  then show ?case by simp
next
  case (Cons gen gens)
  let ?r = "collect acc g (st\<lparr>calls := Suc (calls st)\<rparr>) (items gen) (ending gen)"
  from Cons.prems have "P (st\<lparr>calls := Suc (calls st)\<rparr>)" by (rule call)
  then have P: "P (fst ?r)"
    by (rule collect_rule) (erule (1) skip take)+
  then have "P (fst (collect_all acc g (fst ?r) gens))" by (rule Cons.IH)
  with P show ?case
    by (cases ?r) (auto split: option.splits)
qed

lemma seen_ok_init: "seen_ok init"
  by (simp add: seen_ok_def init_def)

lemma seen_ok_pull: "seen_ok st \<Longrightarrow> seen_ok (pull r st)"
  by (simp add: seen_ok_def pull_def)

lemma seen_ok_accept: "seen_ok st \<Longrightarrow> seen_ok (accept r st)"
  by (simp add: seen_ok_def accept_def)

lemma seen_ok_call: "seen_ok st \<Longrightarrow> seen_ok (st\<lparr>calls := n\<rparr>)"
  by (simp add: seen_ok_def)

lemma collect_seen_ok: "seen_ok st \<Longrightarrow> seen_ok (fst (collect acc g st xs fin))"
  by (rule collect_rule) (simp_all add: seen_ok_pull seen_ok_accept)

lemma collect_all_seen_ok: "seen_ok st \<Longrightarrow> seen_ok (fst (collect_all acc g st gens))"
  by (rule collect_all_rule) (simp_all add: seen_ok_pull seen_ok_accept seen_ok_call)

lemma collect_all_unique:
  assumes "unique_by key st"
    and "\<And>s r. acc s r \<Longrightarrow> key (url_of r) \<notin> key ` seen_urls s"
  shows "unique_by key (fst (collect_all acc g st gens))"
  using assms(1)
proof (rule collect_all_rule)
  fix s r assume "unique_by key s" "acc s r"
  then show "unique_by key (accept r (pull r s))"
    using assms(2)[of s r]
    by (auto simp: unique_by_def seen_ok_def accept_def pull_def)
qed (simp_all add: unique_by_def seen_ok_def pull_def)

section \<open>Quota and faults\<close>

lemma collect_calls: "calls (fst (collect acc g st xs fin)) = calls st"
  by (rule collect_rule[where P = "\<lambda>s. calls s = calls st"]) (simp_all add: pull_def accept_def)

lemma collect_quota:
  assumes "int (length (collected st)) < g"
  shows "int (length (collected (fst (collect acc g st xs fin)))) \<le> g \<and>
         (int (length (collected (fst (collect acc g st xs fin)))) = g \<longrightarrow>
            snd (collect acc g st xs fin) = Some StopIteration \<and>
            pulls (fst (collect acc g st xs fin)) \<noteq> [] \<and>
            last (pulls (fst (collect acc g st xs fin))) = last (collected (fst (collect acc g st xs fin))))"
  using assms
proof (induction xs arbitrary: st)
  case Nil
  then show ?case by (cases fin) simp_all
next
  case (Cons r rest)
  show ?case
  proof (cases "acc st r")
    case False
    have "int (length (collected (pull r st))) < g"
      using Cons.prems by (simp add: pull_def)
    from Cons.IH[OF this] False show ?thesis by simp
  next
    case True
    show ?thesis
    proof (cases "int (length (collected st)) + 1 \<ge> g")
      case stop: True
      with True Cons.prems show ?thesis
        by (simp add: pull_def accept_def)
    next
      case go: False
      then have "int (length (collected (accept r (pull r st)))) < g"
        by (simp add: pull_def accept_def)
      from Cons.IH[OF this] True go show ?thesis by simp
    qed
  qed
qed

lemma collect_all_quota:
  assumes "int (length (collected st)) < g"
  shows "int (length (collected (fst (collect_all acc g st gens)))) \<le> g \<and>
         (int (length (collected (fst (collect_all acc g st gens)))) = g \<longrightarrow>
            snd (collect_all acc g st gens) = Break \<and>
            pulls (fst (collect_all acc g st gens)) \<noteq> [] \<and>
            last (pulls (fst (collect_all acc g st gens))) =
              last (collected (fst (collect_all acc g st gens))))"
  using assms
proof (induction gens arbitrary: st)
  case Nil
  then show ?case by simp
next
  case (Cons gen gens)
  let ?s0 = "st\<lparr>calls := Suc (calls st)\<rparr>"
  obtain s1 sig where c: "collect acc g ?s0 (items gen) (ending gen) = (s1, sig)"
    by (cases "collect acc g ?s0 (items gen) (ending gen)")
  have "int (length (collected ?s0)) < g" using Cons.prems by simp
  from collect_quota[OF this, of acc "items gen" "ending gen"] c
  have le: "int (length (collected s1)) \<le> g"
    and eq: "int (length (collected s1)) = g \<Longrightarrow>
       sig = Some StopIteration \<and> pulls s1 \<noteq> [] \<and> last (pulls s1) = last (collected s1)"
    by simp_all
  show ?case
  proof (cases "sig = Some StopIteration")
    case True
    with c le eq show ?thesis by simp
  next
    case False
    with le eq have lt: "int (length (collected s1)) < g" by fastforce
    note IH = Cons.IH[OF lt]
    show ?thesis
    proof (cases sig)
      case None
      with c IH show ?thesis by simp
    next
      case (Some e)
      with False have "e \<noteq> StopIteration" by simp
      with c Some IH lt show ?thesis by simp
    qed
  qed
qed

lemma collect_all_break:
  assumes "collect_all acc g st gens = (st', Break)"
  shows "\<exists>pre gen post. gens = pre @ gen # post \<and> collect_all acc g st (pre @ [gen]) = (st', Break)
            \<and> calls st' = calls st + length pre + 1"
  using assms
proof (induction gens arbitrary: st)
  case Nil
  then show ?case by simp
next
  case (Cons gen gens)
  let ?s0 = "st\<lparr>calls := Suc (calls st)\<rparr>"
  obtain s1 sig where c: "collect acc g ?s0 (items gen) (ending gen) = (s1, sig)"
    by (cases "collect acc g ?s0 (items gen) (ending gen)")
  have calls: "calls s1 = Suc (calls st)"
    using collect_calls[of acc g ?s0 "items gen" "ending gen"] c by simp
  show ?case
  proof (cases "sig = Some StopIteration")
    case True
    with c Cons.prems have "st' = s1" by simp
    with True c calls have "gen # gens = [] @ gen # gens \<and>
        collect_all acc g st ([] @ [gen]) = (st', Break) \<and> calls st' = calls st + length ([]::producer list) + 1"
      by simp
    then show ?thesis by blast
  next
    case False
    with c Cons.prems have "collect_all acc g s1 gens = (st', Break)"
      by (auto split: option.splits if_splits)
    from Cons.IH[OF this] obtain pre p post where
      g: "gens = pre @ p # post" and r: "collect_all acc g s1 (pre @ [p]) = (st', Break)"
      and n: "calls st' = calls s1 + length pre + 1"
      by blast
    from False c r Cons.prems have "collect_all acc g st ((gen # pre) @ [p]) = (st', Break)"
      by (auto split: option.splits if_splits)
    moreover have "gen # gens = (gen # pre) @ p # post" using g by simp
    moreover have "calls st' = calls st + length (gen # pre) + 1" using n calls by simp
    ultimately show ?thesis by blast
  qed
qed

lemma collect_fault:
  "collect acc g st xs (Raises e) =
     (case collect acc g st xs Returns of (st', None) \<Rightarrow> (st', Some e) | (st', Some x) \<Rightarrow> (st', Some x))"
  by (induction xs arbitrary: st) simp_all

lemma collect_Returns:
  "collect acc g st xs Returns = (st', Some x) \<Longrightarrow> x = StopIteration"
  by (induction xs arbitrary: st) (auto split: if_splits)

lemma collect_all_faults:
  assumes "\<forall>p\<in>set gens. \<forall>e. ending p = Raises e \<longrightarrow> is_fault e"
  shows "collect_all acc g st gens = collect_all acc g st (map (\<lambda>p. p\<lparr>ending := Returns\<rparr>) gens)"
  using assms
proof (induction gens arbitrary: st)
  case Nil
  show ?case by simp
next
  case (Cons gen gens)
  let ?s0 = "st\<lparr>calls := Suc (calls st)\<rparr>"
  obtain s1 sig where c: "collect acc g ?s0 (items gen) Returns = (s1, sig)"
    by (cases "collect acc g ?s0 (items gen) Returns")
  have IH: "collect_all acc g s1 gens = collect_all acc g s1 (map (\<lambda>p. p\<lparr>ending := Returns\<rparr>) gens)"
    using Cons.IH Cons.prems by simp
  show ?case
  proof (cases "ending gen")
    case Returns
    with c IH show ?thesis by (simp split: option.splits)
  next
    case (Raises e)
    with Cons.prems have "is_fault e" by simp
    then have e: "e \<noteq> StopIteration" "is_Exception e" by (simp_all add: is_fault_def)
    show ?thesis
    proof (cases sig)
      case None
      with c Raises e IH show ?thesis by (simp add: collect_fault)
    next
      case (Some x)
      with c have "x = StopIteration" by (simp add: collect_Returns)
      with c Some Raises show ?thesis by (simp add: collect_fault)
    qed
  qed
qed

lemma collect_all_Returns:
  assumes "\<forall>p\<in>set gens. ending p = Returns"
  shows "snd (collect_all acc g st gens) = LoopEnd \<or> snd (collect_all acc g st gens) = Break"
  using assms
proof (induction gens arbitrary: st)
  case Nil
  show ?case by simp
next
  case (Cons gen gens)
  let ?s0 = "st\<lparr>calls := Suc (calls st)\<rparr>"
  obtain s1 sig where c: "collect acc g ?s0 (items gen) Returns = (s1, sig)"
    by (cases "collect acc g ?s0 (items gen) Returns")
  from Cons.prems have r: "ending gen = Returns" by simp
  show ?case
  proof (cases sig)
    case None
    with c r Cons.IH[of s1] Cons.prems show ?thesis by simp
  next
    case (Some x)
    with c have "x = StopIteration" by (simp add: collect_Returns)
    with c Some r show ?thesis by simp
  qed
qed

section \<open>The sample text\<close>

lemma sample_text_length: "length sample_text = 135"
  by (simp add: sample_text_def lit_def)

lemma sample_text_words: "length (split_ws sample_text) = 21"
  by (simp add: sample_text_def lit_def split_ws_def isspace_def)

lemma sample_text_strip: "strip sample_text = sample_text"
  by (simp add: sample_text_def lit_def strip_def isspace_def)

lemma sample_text_v2: "first_long_paragraph_v2 sample_text 120 = sample_text"
  by (simp add: first_long_paragraph_v2_def sample_text_def lit_def strip_def isspace_def NL_def)

lemma sample_text_v1: "first_long_paragraph sample_text 120 = sample_text"
  by (simp add: first_long_paragraph_def split_nl_def sample_text_def lit_def strip_def isspace_def NL_def)

section \<open>Uniqueness of the sources\<close>

lemma main_v2_csv:
  "main_v2 d g gens = Inr out \<Longrightarrow> csv out = collected (fst (loop_v2 d g init gens))"
  by (auto simp: main_v2_def split: prod.splits ended.splits)

lemma main_with_csv:
  "main_with l gens = Inr out \<Longrightarrow> csv out = collected (fst (loop l init gens))"
  by (auto simp: main_with_def split: prod.splits ended.splits)

lemma unique_by_init: "unique_by key init"
  by (simp add: unique_by_def seen_ok_def init_def)

lemma loop_v2_unique_domain: "unique_by d (fst (loop_v2 d g init gens))"
  unfolding loop_v2_collect
  by (rule collect_all_unique[OF unique_by_init]) (simp add: accepts_v2_def)

lemma loop_v2_unique_url: "unique_by (\<lambda>u. u) (fst (loop_v2 d g init gens))"
  unfolding loop_v2_collect
  by (rule collect_all_unique[OF unique_by_init]) (simp add: accepts_v2_def)

lemma loop_unique_url: "unique_by (\<lambda>u. u) (fst (loop l init gens))"
  unfolding loop_collect
  by (rule collect_all_unique[OF unique_by_init]) (simp add: accepts_def)

text \<open>
  C2. In the report of every completed run no two rows have the same URL; in
  \<^verbatim>\<open>generate_spanish_paragraphs_v2.py\<close> no two rows have the same registrable
  domain either.
\<close>

theorem unique_sources:
  "(main gens = Inr out \<longrightarrow> distinct (map url_of (csv out))) \<and>
   (main_fixed gens = Inr out \<longrightarrow> distinct (map url_of (csv out))) \<and>
   (main_v2 domain goal gens = Inr out \<longrightarrow>
      distinct (map url_of (csv out)) \<and> distinct (map (\<lambda>r. domain (url_of r)) (csv out)))"
proof (intro conjI impI)
  assume "main gens = Inr out"
  then have "csv out = collected (fst (loop 100 init gens))"
    unfolding main_def by (rule main_with_csv)
  with loop_unique_url[of 100 gens] show "distinct (map url_of (csv out))"
    by (simp add: unique_by_def)
next
  assume "main_fixed gens = Inr out"
  then have "csv out = collected (fst (loop 1000 init gens))"
    unfolding main_fixed_def by (rule main_with_csv)
  with loop_unique_url[of 1000 gens] show "distinct (map url_of (csv out))"
    by (simp add: unique_by_def)
next
  assume m: "main_v2 domain goal gens = Inr out"
  then have c: "csv out = collected (fst (loop_v2 domain goal init gens))"
    by (rule main_v2_csv)
  with loop_v2_unique_url[of domain goal gens] show "distinct (map url_of (csv out))"
    by (simp add: unique_by_def)
  from c loop_v2_unique_domain[of domain goal gens]
  show "distinct (map (\<lambda>r. domain (url_of r)) (csv out))"
    by (simp add: unique_by_def)
qed

section \<open>The sample run\<close>

lemma main_two_feeds: "main two_feeds = Inr two_feeds_report"
  by (simp add: main_def main_with_def two_feeds_def two_feeds_report_def init_def
      sample_text_words lit_def)

lemma main_fixed_two_feeds: "main_fixed two_feeds = Inr two_feeds_report"
  by (simp add: main_fixed_def main_with_def two_feeds_def two_feeds_report_def init_def
      sample_text_words lit_def)

lemma main_v2_two_feeds: "main_v2 (take 12) 5 two_feeds = Inr two_feeds_report_v2"
  by (simp add: main_v2_def two_feeds_def two_feeds_report_v2_def init_def sample_text_length
      lit_def MIN_PARAGRAPH_LEN_def)

theorem unique_sources_witness:
  "main two_feeds = Inr two_feeds_report \<and> main_fixed two_feeds = Inr two_feeds_report \<and>
   distinct (map url_of (csv two_feeds_report)) \<and>
   main_v2 (take 12) 5 two_feeds = Inr two_feeds_report_v2 \<and>
   distinct (map url_of (csv two_feeds_report_v2)) \<and>
   distinct (map (\<lambda>r. take 12 (url_of r)) (csv two_feeds_report_v2))"
proof -
  note m1 = main_two_feeds and m2 = main_fixed_two_feeds and m3 = main_v2_two_feeds
  from unique_sources[of two_feeds two_feeds_report] m1
  have "distinct (map url_of (csv two_feeds_report))" by blast
  moreover from unique_sources[of two_feeds two_feeds_report_v2 "take 12" 5] m3
  have "distinct (map url_of (csv two_feeds_report_v2)) \<and>
        distinct (map (\<lambda>r. take 12 (url_of r)) (csv two_feeds_report_v2))" by blast
  ultimately show ?thesis using m1 m2 m3 by simp
qed

section \<open>Faults of the producers\<close>

lemma collect_all_no_propagation:
  assumes "\<forall>p\<in>set gens. \<forall>e. ending p = Raises e \<longrightarrow> is_fault e"
  shows "snd (collect_all acc g st gens) = LoopEnd \<or> snd (collect_all acc g st gens) = Break"
proof -
  have "\<forall>p\<in>set (map (\<lambda>p. p\<lparr>ending := Returns\<rparr>) gens). ending p = Returns"
    by simp
  from collect_all_Returns[OF this] collect_all_faults[OF assms]
  show ?thesis by simp
qed

lemma main_v2_faults:
  assumes "\<forall>p\<in>set gens. \<forall>e. ending p = Raises e \<longrightarrow> is_fault e"
  shows "(\<exists>out. main_v2 d g gens = Inr out \<and> csv out = collected (fst (loop_v2 d g init gens))) \<and>
         main_v2 d g gens = main_v2 d g (map (\<lambda>p. p\<lparr>ending := Returns\<rparr>) gens)"
proof -
  from collect_all_no_propagation[OF assms, of "accepts_v2 d" g init]
  have "\<exists>out. main_v2 d g gens = Inr out \<and> csv out = collected (fst (loop_v2 d g init gens))"
    by (cases "collect_all (accepts_v2 d) g init gens")
       (auto simp: main_v2_def loop_v2_collect)
  moreover from collect_all_faults[OF assms, of "accepts_v2 d" g init]
  have "main_v2 d g gens = main_v2 d g (map (\<lambda>p. p\<lparr>ending := Returns\<rparr>) gens)"
    by (simp add: main_v2_def loop_v2_collect)
  ultimately show ?thesis by blast
qed

lemma main_with_faults:
  assumes "\<forall>p\<in>set gens. \<forall>e. ending p = Raises e \<longrightarrow> is_fault e"
  shows "(\<exists>out. main_with l gens = Inr out \<and> csv out = collected (fst (loop l init gens))) \<and>
         main_with l gens = main_with l (map (\<lambda>p. p\<lparr>ending := Returns\<rparr>) gens)"
proof -
  from collect_all_no_propagation[OF assms, of accepts l init]
  have "\<exists>out. main_with l gens = Inr out \<and> csv out = collected (fst (loop l init gens))"
    by (cases "collect_all accepts l init gens")
       (auto simp: main_with_def loop_collect)
  moreover from collect_all_faults[OF assms, of accepts l init]
  have "main_with l gens = main_with l (map (\<lambda>p. p\<lparr>ending := Returns\<rparr>) gens)"
    by (simp add: main_with_def loop_collect)
  ultimately show ?thesis by blast
qed

text \<open>
  C5. When every exception a producer raises is a fault (an \<^verbatim>\<open>Exception\<close> other
  than \<^verbatim>\<open>StopIteration\<close>), the run completes with a report, and the report is
  the one of the run in which each producer, after the same records, ends its
  iteration normally instead of raising: the records accepted so far are kept, the
  producer contributes nothing more, and the loop goes on with the next producer.
\<close>

theorem faults_absorbed:
  assumes "\<forall>p\<in>set gens. \<forall>e. ending p = Raises e \<longrightarrow> is_fault e"
  shows "(\<exists>out. main_v2 domain goal gens = Inr out) \<and>
         main_v2 domain goal gens = main_v2 domain goal (map (\<lambda>p. p\<lparr>ending := Returns\<rparr>) gens) \<and>
         (\<exists>out. main gens = Inr out) \<and>
         main gens = main (map (\<lambda>p. p\<lparr>ending := Returns\<rparr>) gens) \<and>
         (\<exists>out. main_fixed gens = Inr out) \<and>
         main_fixed gens = main_fixed (map (\<lambda>p. p\<lparr>ending := Returns\<rparr>) gens)"
  using main_v2_faults[OF assms, of domain goal] main_with_faults[OF assms, of 100]
    main_with_faults[OF assms, of 1000]
  unfolding main_def main_fixed_def by blast

theorem faults_absorbed_witness:
  "ending (hd two_feeds) = Raises RuntimeError \<and> is_fault RuntimeError \<and>
   main_v2 (take 12) 5 (map (\<lambda>p. p\<lparr>ending := Returns\<rparr>) two_feeds) = Inr two_feeds_report_v2 \<and>
   main (map (\<lambda>p. p\<lparr>ending := Returns\<rparr>) two_feeds) = Inr two_feeds_report \<and>
   main_fixed (map (\<lambda>p. p\<lparr>ending := Returns\<rparr>) two_feeds) = Inr two_feeds_report"
proof -
  have h: "\<forall>p\<in>set two_feeds. \<forall>e. ending p = Raises e \<longrightarrow> is_fault e"
    by (simp add: two_feeds_def is_fault_def)
  note t = faults_absorbed[OF h, of "take 12" 5]
  from t have "main_v2 (take 12) 5 two_feeds =
      main_v2 (take 12) 5 (map (\<lambda>p. p\<lparr>ending := Returns\<rparr>) two_feeds)" by blast
  with main_v2_two_feeds
  have a: "main_v2 (take 12) 5 (map (\<lambda>p. p\<lparr>ending := Returns\<rparr>) two_feeds) = Inr two_feeds_report_v2"
    by simp
  from t have "main two_feeds = main (map (\<lambda>p. p\<lparr>ending := Returns\<rparr>) two_feeds)" by blast
  with main_two_feeds
  have b: "main (map (\<lambda>p. p\<lparr>ending := Returns\<rparr>) two_feeds) = Inr two_feeds_report"
    by simp
  from t have "main_fixed two_feeds = main_fixed (map (\<lambda>p. p\<lparr>ending := Returns\<rparr>) two_feeds)"
    by blast
  with main_fixed_two_feeds
  have c: "main_fixed (map (\<lambda>p. p\<lparr>ending := Returns\<rparr>) two_feeds) = Inr two_feeds_report"
    by simp
  have f: "ending (hd two_feeds) = Raises RuntimeError \<and> is_fault RuntimeError"
    by (simp add: two_feeds_def is_fault_def)
  from f a b c show ?thesis by blast
qed

section \<open>Exhausted producers\<close>

lemma loop_v2_LoopEnd_short:
  assumes "loop_v2 d g init gens = (st, LoopEnd)" and "1 \<le> g"
  shows "int (length (collected st)) < g"
proof -
  have "int (length (collected init)) < g" using assms(2) by (simp add: init_def)
  from collect_all_quota[OF this, of "accepts_v2 d" gens] assms(1)
  show ?thesis by (auto simp: loop_v2_collect)
qed

lemma loop_LoopEnd_short:
  assumes "loop l init gens = (st, LoopEnd)" and "1 \<le> l"
  shows "int (length (collected st)) < l"
proof -
  have "int (length (collected init)) < l" using assms(2) by (simp add: init_def)
  from collect_all_quota[OF this, of accepts gens] assms(1)
  show ?thesis by (auto simp: loop_collect)
qed

text \<open>
  C8. When the loop of a run ends because the producers are exhausted, with fewer
  records than requested, the program ends normally: it prints the warning and writes
  the rows collected so far. For a quota of at least one, a loop that ends by
  exhaustion always has fewer records than requested; the two older files have the
  quotas 100 and 1000.
\<close>

theorem exhaustion_reported:
  "(loop_v2 domain goal init gens = (st, LoopEnd) \<longrightarrow>
      (1 \<le> goal \<longrightarrow> int (length (collected st)) < goal) \<and>
      (int (length (collected st)) < goal \<longrightarrow>
         main_v2 domain goal gens =
           Inr \<lparr>printed = [Summary (length (collected st)) goal, Saved, Warning],
                csv = collected st\<rparr>)) \<and>
   (loop 100 init gens = (st, LoopEnd) \<longrightarrow>
      int (length (collected st)) < 100 \<and>
      main gens = Inr \<lparr>printed = [Warning_only (length (collected st)), Saved],
                         csv = collected st\<rparr>) \<and>
   (loop 1000 init gens = (st, LoopEnd) \<longrightarrow>
      int (length (collected st)) < 1000 \<and>
      main_fixed gens = Inr \<lparr>printed = [Warning_only (length (collected st)), Saved],
                               csv = collected st\<rparr>)"
proof (intro conjI impI)
  assume "loop_v2 domain goal init gens = (st, LoopEnd)" "1 \<le> goal"
  then show "int (length (collected st)) < goal" by (rule loop_v2_LoopEnd_short)
next
  assume "loop_v2 domain goal init gens = (st, LoopEnd)" "int (length (collected st)) < goal"
  then show "main_v2 domain goal gens =
           Inr \<lparr>printed = [Summary (length (collected st)) goal, Saved, Warning],
                csv = collected st\<rparr>"
    by (simp add: main_v2_def)
next
  assume l: "loop 100 init gens = (st, LoopEnd)"
  then show s: "int (length (collected st)) < 100" by (rule loop_LoopEnd_short) simp
  from l s show "main gens = Inr \<lparr>printed = [Warning_only (length (collected st)), Saved],
                         csv = collected st\<rparr>"
    by (simp add: main_def main_with_def)
next
  assume l: "loop 1000 init gens = (st, LoopEnd)"
  then show s: "int (length (collected st)) < 1000" by (rule loop_LoopEnd_short) simp
  from l s show "main_fixed gens = Inr \<lparr>printed = [Warning_only (length (collected st)), Saved],
                         csv = collected st\<rparr>"
    by (simp add: main_fixed_def main_with_def)
qed

lemma loop_v2_two_feeds: "loop_v2 (take 12) 5 init two_feeds = (two_feeds_state_v2, LoopEnd)"
  by (simp add: two_feeds_def two_feeds_state_v2_def two_feeds_pulls_def two_feeds_report_v2_def
      init_def sample_text_length lit_def MIN_PARAGRAPH_LEN_def insert_commute)

lemma loop_two_feeds: "3 < l \<Longrightarrow> loop l init two_feeds = (two_feeds_state, LoopEnd)"
  by (simp add: two_feeds_def two_feeds_state_def two_feeds_pulls_def two_feeds_report_def
      init_def sample_text_words lit_def insert_commute)

theorem exhaustion_reported_witness:
  "loop_v2 (take 12) 5 init two_feeds = (two_feeds_state_v2, LoopEnd) \<and>
   int (length (collected two_feeds_state_v2)) < 5 \<and>
   main_v2 (take 12) 5 two_feeds =
     Inr \<lparr>printed = [Summary (length (collected two_feeds_state_v2)) 5, Saved, Warning],
          csv = collected two_feeds_state_v2\<rparr> \<and>
   loop 100 init two_feeds = (two_feeds_state, LoopEnd) \<and>
   loop 1000 init two_feeds = (two_feeds_state, LoopEnd) \<and>
   main two_feeds = Inr \<lparr>printed = [Warning_only (length (collected two_feeds_state)), Saved],
                            csv = collected two_feeds_state\<rparr> \<and>
   main_fixed two_feeds = Inr \<lparr>printed = [Warning_only (length (collected two_feeds_state)), Saved],
                                  csv = collected two_feeds_state\<rparr>"
proof -
  have a: "loop_v2 (take 12) 5 init two_feeds = (two_feeds_state_v2, LoopEnd)"
    by (rule loop_v2_two_feeds)
  have b: "loop 100 init two_feeds = (two_feeds_state, LoopEnd)"
    by (rule loop_two_feeds) simp
  have c: "loop 1000 init two_feeds = (two_feeds_state, LoopEnd)"
    by (rule loop_two_feeds) simp
  have one: "(1::int) \<le> 5" by simp
  from exhaustion_reported[of "take 12" 5 two_feeds two_feeds_state_v2] a one
  have a': "int (length (collected two_feeds_state_v2)) < 5 \<and>
     main_v2 (take 12) 5 two_feeds =
       Inr \<lparr>printed = [Summary (length (collected two_feeds_state_v2)) 5, Saved, Warning],
            csv = collected two_feeds_state_v2\<rparr>"
    by blast
  from exhaustion_reported[of "take 12" 5 two_feeds two_feeds_state] b c
  have b': "main two_feeds = Inr \<lparr>printed = [Warning_only (length (collected two_feeds_state)), Saved],
                            csv = collected two_feeds_state\<rparr> \<and>
     main_fixed two_feeds = Inr \<lparr>printed = [Warning_only (length (collected two_feeds_state)), Saved],
                                  csv = collected two_feeds_state\<rparr>"
    by blast
  from a b c a' b' show ?thesis by blast
qed

section \<open>The seen set\<close>

lemma collect_Cons:
  "collect acc g st (r # rest) fin =
     (case collect acc g st [r] Returns of
        (st', None) \<Rightarrow> collect acc g st' rest fin
      | (st', Some e) \<Rightarrow> (st', Some e))"
  by simp

lemma drain_v2_Cons:
  "drain_v2 d g st (r # rest) fin =
     (case drain_v2 d g st [r] Returns of
        (st', None) \<Rightarrow> drain_v2 d g st' rest fin
      | (st', Some e) \<Rightarrow> (st', Some e))"
  unfolding drain_v2_collect by (rule collect_Cons)

lemma drain_Cons:
  "drain l st (r # rest) fin =
     (case drain l st [r] Returns of
        (st', None) \<Rightarrow> drain l st' rest fin
      | (st', Some e) \<Rightarrow> (st', Some e))"
  unfolding drain_collect by (rule collect_Cons)

lemma collect_one:
  "fst (collect acc g st [r] Returns) = (if acc st r then accept r (pull r st) else pull r st)"
  by simp

lemma drain_v2_one:
  "fst (drain_v2 d g st [r] Returns) = (if accepts_v2 d st r then accept r (pull r st) else pull r st)"
  unfolding drain_v2_collect by (rule collect_one)

lemma drain_one:
  "fst (drain l st [r] Returns) = (if accepts st r then accept r (pull r st) else pull r st)"
  unfolding drain_collect by (rule collect_one)

text \<open>
  C9. The seen set is the set of the URLs of the collected records: at the start, and
  after the inner and the outer loop have run from any state in which it was so, over
  any records and producers, hence at every point of a run. One record changes the
  seen set and the collected list only when it is accepted.
\<close>

theorem seen_set_follows_collected:
  "seen_ok init \<and>
   (seen_ok st \<longrightarrow>
      seen_ok (fst (drain_v2 domain goal st xs fin)) \<and>
      seen_ok (fst (loop_v2 domain goal st gens)) \<and>
      seen_ok (fst (drain limit st xs fin)) \<and>
      seen_ok (fst (loop limit st gens))) \<and>
   (\<not> accepts_v2 domain st r \<longrightarrow>
      seen_urls (fst (drain_v2 domain goal st [r] Returns)) = seen_urls st \<and>
      collected (fst (drain_v2 domain goal st [r] Returns)) = collected st) \<and>
   (accepts_v2 domain st r \<longrightarrow>
      seen_urls (fst (drain_v2 domain goal st [r] Returns)) = insert (url_of r) (seen_urls st) \<and>
      collected (fst (drain_v2 domain goal st [r] Returns)) = collected st @ [r]) \<and>
   (\<not> accepts st r \<longrightarrow>
      seen_urls (fst (drain limit st [r] Returns)) = seen_urls st \<and>
      collected (fst (drain limit st [r] Returns)) = collected st) \<and>
   (accepts st r \<longrightarrow>
      seen_urls (fst (drain limit st [r] Returns)) = insert (url_of r) (seen_urls st) \<and>
      collected (fst (drain limit st [r] Returns)) = collected st @ [r])"
proof (intro conjI impI)
  show "seen_ok init" by (rule seen_ok_init)
next
  assume s: "seen_ok st"
  show "seen_ok (fst (drain_v2 domain goal st xs fin))"
    unfolding drain_v2_collect using s by (rule collect_seen_ok)
  show "seen_ok (fst (loop_v2 domain goal st gens))"
    unfolding loop_v2_collect using s by (rule collect_all_seen_ok)
  show "seen_ok (fst (drain limit st xs fin))"
    unfolding drain_collect using s by (rule collect_seen_ok)
  show "seen_ok (fst (loop limit st gens))"
    unfolding loop_collect using s by (rule collect_all_seen_ok)
qed (simp_all add: drain_v2_one drain_one pull_def accept_def)

theorem seen_set_follows_collected_witness:
  "seen_ok init \<and>
   seen_ok (fst (loop_v2 (take 12) 5 init two_feeds)) \<and>
   seen_urls two_feeds_state_v2 = url_of ` set (collected two_feeds_state_v2) \<and>
   seen_ok (fst (loop 100 init two_feeds)) \<and>
   seen_urls two_feeds_state = url_of ` set (collected two_feeds_state) \<and>
   \<not> accepts_v2 (take 12) two_feeds_state_v2 (sample_text, ''noticia'', lit ''http://a.es/2'') \<and>
   seen_urls (fst (drain_v2 (take 12) 5 two_feeds_state_v2
        [(sample_text, ''noticia'', lit ''http://a.es/2'')] Returns)) = seen_urls two_feeds_state_v2 \<and>
   accepts_v2 (take 12) two_feeds_state_v2 (sample_text, ''noticia'', lit ''http://c.es/1'') \<and>
   seen_urls (fst (drain_v2 (take 12) 5 two_feeds_state_v2
        [(sample_text, ''noticia'', lit ''http://c.es/1'')] Returns)) =
     insert (lit ''http://c.es/1'') (seen_urls two_feeds_state_v2) \<and>
   \<not> accepts two_feeds_state ([], ''novela'', lit ''http://c.es/1'') \<and>
   collected (fst (drain 100 two_feeds_state [([], ''novela'', lit ''http://c.es/1'')] Returns)) =
     collected two_feeds_state \<and>
   accepts two_feeds_state (sample_text, ''novela'', lit ''http://c.es/1'') \<and>
   collected (fst (drain 100 two_feeds_state [(sample_text, ''novela'', lit ''http://c.es/1'')] Returns)) =
     collected two_feeds_state @ [(sample_text, ''novela'', lit ''http://c.es/1'')]"
proof -
  have i: "seen_ok init" by (rule seen_ok_init)
  note t = seen_set_follows_collected[of init "take 12" 5 "[]" Returns two_feeds 100]
  from t i have a: "seen_ok (fst (loop_v2 (take 12) 5 init two_feeds))"
    and b: "seen_ok (fst (loop 100 init two_feeds))" by blast+
  from a have a': "seen_urls two_feeds_state_v2 = url_of ` set (collected two_feeds_state_v2)"
    by (simp add: loop_v2_two_feeds seen_ok_def)
  from b have b': "seen_urls two_feeds_state = url_of ` set (collected two_feeds_state)"
    by (simp add: loop_two_feeds seen_ok_def)
  have n1: "\<not> accepts_v2 (take 12) two_feeds_state_v2 (sample_text, ''noticia'', lit ''http://a.es/2'')"
    by (simp add: accepts_v2_def two_feeds_state_v2_def lit_def)
  have y1: "accepts_v2 (take 12) two_feeds_state_v2 (sample_text, ''noticia'', lit ''http://c.es/1'')"
    by (simp add: accepts_v2_def two_feeds_state_v2_def lit_def sample_text_length MIN_PARAGRAPH_LEN_def)
  have n2: "\<not> accepts two_feeds_state ([], ''novela'', lit ''http://c.es/1'')"
    by (simp add: accepts_def split_ws_def)
  have y2: "accepts two_feeds_state (sample_text, ''novela'', lit ''http://c.es/1'')"
    by (simp add: accepts_def two_feeds_state_def lit_def sample_text_words)
  from seen_set_follows_collected[of two_feeds_state_v2 "take 12" 5 "[]" Returns "[]" 100
      "(sample_text, ''noticia'', lit ''http://a.es/2'')"] n1
  have c1: "seen_urls (fst (drain_v2 (take 12) 5 two_feeds_state_v2
        [(sample_text, ''noticia'', lit ''http://a.es/2'')] Returns)) = seen_urls two_feeds_state_v2"
    by blast
  from seen_set_follows_collected[of two_feeds_state_v2 "take 12" 5 "[]" Returns "[]" 100
      "(sample_text, ''noticia'', lit ''http://c.es/1'')"] y1
  have c2: "seen_urls (fst (drain_v2 (take 12) 5 two_feeds_state_v2
        [(sample_text, ''noticia'', lit ''http://c.es/1'')] Returns)) =
     insert (lit ''http://c.es/1'') (seen_urls two_feeds_state_v2)"
    by simp
  from seen_set_follows_collected[of two_feeds_state "take 12" 5 "[]" Returns "[]" 100
      "([], ''novela'', lit ''http://c.es/1'')"] n2
  have c3: "collected (fst (drain 100 two_feeds_state [([], ''novela'', lit ''http://c.es/1'')] Returns)) =
     collected two_feeds_state"
    by blast
  from seen_set_follows_collected[of two_feeds_state "take 12" 5 "[]" Returns "[]" 100
      "(sample_text, ''novela'', lit ''http://c.es/1'')"] y2
  have c4: "collected (fst (drain 100 two_feeds_state [(sample_text, ''novela'', lit ''http://c.es/1'')] Returns)) =
     collected two_feeds_state @ [(sample_text, ''novela'', lit ''http://c.es/1'')]"
    by simp
  from i a a' b b' n1 y1 n2 y2 c1 c2 c3 c4 show ?thesis by blast
qed

section \<open>What the loops accept\<close>

lemma one_long_word_length: "length one_long_word = 120"
  by (simp add: one_long_word_def lit_def)

lemma one_long_word_words: "length (split_ws one_long_word) = 1"
  by (simp add: one_long_word_def lit_def split_ws_def isspace_def)

lemma many_short_words_length: "length many_short_words = 41"
  by (simp add: many_short_words_def lit_def)

lemma many_short_words_words: "length (split_ws many_short_words) = 21"
  by (simp add: many_short_words_def lit_def split_ws_def isspace_def)

lemma loop_v2_collected_long:
  "\<forall>x\<in>set (collected (fst (loop_v2 d g init gens))). long_enough x"
  unfolding loop_v2_collect
  by (rule collect_all_rule[where P = "\<lambda>s. \<forall>x\<in>set (collected s). long_enough x"])
     (auto simp: init_def pull_def accept_def accepts_v2_def long_enough_def)

lemma loop_collected_wordy:
  "\<forall>x\<in>set (collected (fst (loop l init gens))). wordy x"
  unfolding loop_collect
  by (rule collect_all_rule[where P = "\<lambda>s. \<forall>x\<in>set (collected s). wordy x"])
     (auto simp: init_def pull_def accept_def accepts_def wordy_def)

lemma loop_v2_pulled_long:
  "\<forall>x\<in>set (pulls (fst (loop_v2 d g init gens))).
     long_enough x \<longrightarrow> d (url_of x) \<in> (\<lambda>y. d (url_of y)) ` set (collected (fst (loop_v2 d g init gens)))"
proof -
  let ?P = "\<lambda>s. seen_ok s \<and> (\<forall>x\<in>set (pulls s). long_enough x \<longrightarrow> d (url_of x) \<in> d ` seen_urls s)"
  have "?P (fst (collect_all (accepts_v2 d) g init gens))"
    by (rule collect_all_rule[where P = ?P])
       (auto simp: init_def seen_ok_def pull_def accept_def accepts_v2_def long_enough_def)
  then have "\<forall>x\<in>set (pulls (fst (collect_all (accepts_v2 d) g init gens))). long_enough x \<longrightarrow>
      d (url_of x) \<in> d ` url_of ` set (collected (fst (collect_all (accepts_v2 d) g init gens)))"
    by (auto simp: seen_ok_def)
  then show ?thesis
    by (simp add: loop_v2_collect image_image)
qed

lemma loop_pulled_wordy:
  "\<forall>x\<in>set (pulls (fst (loop l init gens))).
     wordy x \<longrightarrow> url_of x \<in> url_of ` set (collected (fst (loop l init gens)))"
proof -
  let ?P = "\<lambda>s. seen_ok s \<and> (\<forall>x\<in>set (pulls s). wordy x \<longrightarrow> url_of x \<in> seen_urls s)"
  have "?P (fst (collect_all accepts l init gens))"
    by (rule collect_all_rule[where P = ?P])
       (auto simp: init_def seen_ok_def pull_def accept_def accepts_def wordy_def)
  then show ?thesis
    by (auto simp: loop_collect seen_ok_def)
qed

section \<open>The acceptance test\<close>

text \<open>
  C3, as the code has it. In \<^verbatim>\<open>generate_spanish_paragraphs_v2.py\<close> a record that the
  loop receives is appended, and its URL added to the seen set, exactly when its URL is
  not in the seen set, its domain is not the domain of a seen URL, and its text has at
  least \<^verbatim>\<open>MIN_PARAGRAPH_LEN\<close> characters. In the two older files it is appended
  exactly when its URL is not in the seen set and its text has more than 20 words.
  Hence, in a whole run, every collected record passed the text test of its file, and
  every received record that passes the text test is represented in the result: by
  its domain in the first file, by its URL in the older ones.
\<close>

theorem acceptance_test:
  "collected (fst (drain_v2 domain goal st [r] Returns)) =
     (if url_of r \<notin> seen_urls st \<and> domain (url_of r) \<notin> domain ` seen_urls st \<and>
         MIN_PARAGRAPH_LEN \<le> int (length (text_of r))
      then collected st @ [r] else collected st) \<and>
   seen_urls (fst (drain_v2 domain goal st [r] Returns)) =
     (if url_of r \<notin> seen_urls st \<and> domain (url_of r) \<notin> domain ` seen_urls st \<and>
         MIN_PARAGRAPH_LEN \<le> int (length (text_of r))
      then insert (url_of r) (seen_urls st) else seen_urls st) \<and>
   collected (fst (drain limit st [r] Returns)) =
     (if url_of r \<notin> seen_urls st \<and> 20 < length (split_ws (text_of r))
      then collected st @ [r] else collected st) \<and>
   seen_urls (fst (drain limit st [r] Returns)) =
     (if url_of r \<notin> seen_urls st \<and> 20 < length (split_ws (text_of r))
      then insert (url_of r) (seen_urls st) else seen_urls st) \<and>
   (\<forall>x\<in>set (collected (fst (loop_v2 domain goal init gens))).
      MIN_PARAGRAPH_LEN \<le> int (length (text_of x))) \<and>
   (\<forall>x\<in>set (pulls (fst (loop_v2 domain goal init gens))).
      MIN_PARAGRAPH_LEN \<le> int (length (text_of x)) \<longrightarrow>
      domain (url_of x) \<in>
        (\<lambda>y. domain (url_of y)) ` set (collected (fst (loop_v2 domain goal init gens)))) \<and>
   (\<forall>x\<in>set (collected (fst (loop limit init gens))). 20 < length (split_ws (text_of x))) \<and>
   (\<forall>x\<in>set (pulls (fst (loop limit init gens))).
      20 < length (split_ws (text_of x)) \<longrightarrow>
      url_of x \<in> url_of ` set (collected (fst (loop limit init gens))))"
proof (intro conjI)
  show "\<forall>x\<in>set (collected (fst (loop_v2 domain goal init gens))).
      MIN_PARAGRAPH_LEN \<le> int (length (text_of x))"
    using loop_v2_collected_long[of domain goal gens] by (simp add: long_enough_def)
  show "\<forall>x\<in>set (pulls (fst (loop_v2 domain goal init gens))).
      MIN_PARAGRAPH_LEN \<le> int (length (text_of x)) \<longrightarrow>
      domain (url_of x) \<in>
        (\<lambda>y. domain (url_of y)) ` set (collected (fst (loop_v2 domain goal init gens)))"
    using loop_v2_pulled_long[of domain goal gens] by (simp add: long_enough_def)
  show "\<forall>x\<in>set (collected (fst (loop limit init gens))). 20 < length (split_ws (text_of x))"
    using loop_collected_wordy[of limit gens] by (simp add: wordy_def)
  show "\<forall>x\<in>set (pulls (fst (loop limit init gens))).
      20 < length (split_ws (text_of x)) \<longrightarrow>
      url_of x \<in> url_of ` set (collected (fst (loop limit init gens)))"
    using loop_pulled_wordy[of limit gens] by (simp add: wordy_def)
qed (simp_all add: drain_v2_one drain_one accepts_v2_def accepts_def pull_def accept_def)

theorem acceptance_test_witness:
  "(sample_text, ''blog'', lit ''http://b.es/1'') \<in> set (collected two_feeds_state_v2) \<and>
   MIN_PARAGRAPH_LEN \<le> int (length sample_text) \<and>
   (sample_text, ''noticia'', lit ''http://a.es/2'') \<in> set (pulls two_feeds_state_v2) \<and>
   take 12 (lit ''http://a.es/2'') \<in>
     (\<lambda>y. take 12 (url_of y)) ` set (collected two_feeds_state_v2) \<and>
   (sample_text, ''noticia'', lit ''http://a.es/2'') \<in> set (collected two_feeds_state) \<and>
   20 < length (split_ws sample_text) \<and>
   (sample_text, ''noticia'', lit ''http://a.es/1'') \<in> set (pulls two_feeds_state) \<and>
   lit ''http://a.es/1'' \<in> url_of ` set (collected two_feeds_state)"
proof -
  note t = acceptance_test[of "take 12" 5 init "(sample_text, ''blog'', lit ''http://b.es/1'')"
      100 two_feeds]
  have c2: "(sample_text, ''blog'', lit ''http://b.es/1'') \<in> set (collected two_feeds_state_v2)"
    by (simp add: two_feeds_state_v2_def two_feeds_report_v2_def)
  have p2: "(sample_text, ''noticia'', lit ''http://a.es/2'') \<in> set (pulls two_feeds_state_v2)"
    by (simp add: two_feeds_state_v2_def two_feeds_pulls_def)
  have c1: "(sample_text, ''noticia'', lit ''http://a.es/2'') \<in> set (collected two_feeds_state)"
    by (simp add: two_feeds_state_def two_feeds_report_def)
  have p1: "(sample_text, ''noticia'', lit ''http://a.es/1'') \<in> set (pulls two_feeds_state)"
    by (simp add: two_feeds_state_def two_feeds_pulls_def)
  have l2: "fst (loop_v2 (take 12) 5 init two_feeds) = two_feeds_state_v2"
    by (simp add: loop_v2_two_feeds)
  have l1: "fst (loop 100 init two_feeds) = two_feeds_state"
    by (simp add: loop_two_feeds)
  note t5 = t[THEN conjunct2, THEN conjunct2, THEN conjunct2, THEN conjunct2]
  note g1 = t5[THEN conjunct1, unfolded l2]
  note g2 = t5[THEN conjunct2, THEN conjunct1, unfolded l2]
  note g3 = t5[THEN conjunct2, THEN conjunct2, THEN conjunct1, unfolded l1]
  note g4 = t5[THEN conjunct2, THEN conjunct2, THEN conjunct2, unfolded l1]
  from g1[rule_format, OF c2] have a: "MIN_PARAGRAPH_LEN \<le> int (length sample_text)"
    by simp
  from g2[rule_format, OF p2] a have b: "take 12 (lit ''http://a.es/2'') \<in>
     (\<lambda>y. take 12 (url_of y)) ` set (collected two_feeds_state_v2)"
    by simp
  from g3[rule_format, OF c1] have c: "20 < length (split_ws sample_text)"
    by simp
  from g4[rule_format, OF p1] c have d: "lit ''http://a.es/1'' \<in> url_of ` set (collected two_feeds_state)"
    by simp
  from c2 a p2 b c1 c p1 d show ?thesis by blast
qed

text \<open>
  C3 as stated fails on \<^verbatim>\<open>generate_spanish_paragraphs_fixed.py\<close>: a record with a
  new URL and a text of 120 characters in one word is not appended, and a record
  with a text of 41 characters in 21 words is.
\<close>

theorem acceptance_counterexample:
  "lit ''http://c.es/1'' \<notin> seen_urls init \<and>
   int (length one_long_word) \<ge> 120 \<and>
   collected (fst (drain 1000 init [(one_long_word, ''novela'', lit ''http://c.es/1'')] Returns)) = [] \<and>
   int (length many_short_words) < 120 \<and>
   collected (fst (drain 1000 init [(many_short_words, ''novela'', lit ''http://c.es/1'')] Returns)) =
     [(many_short_words, ''novela'', lit ''http://c.es/1'')]"
  by (simp add: init_def one_long_word_length one_long_word_words many_short_words_length
      many_short_words_words)

section \<open>A quota of zero or less\<close>

lemma collect_nonpositive:
  assumes "g \<le> 0" and "nothing_yet st"
  shows "nothing_yet (fst (collect (accepts_v2 d) g st xs fin)) \<or>
         (snd (collect (accepts_v2 d) g st xs fin) = Some StopIteration \<and>
          took_one (fst (collect (accepts_v2 d) g st xs fin)))"
  using assms(2)
proof (induction xs arbitrary: st)
  case Nil
  then show ?case by (cases fin) simp_all
next
  case (Cons r rest)
  show ?case
  proof (cases "long_enough r")
    case True
    with Cons.prems have acc: "accepts_v2 d st r"
      by (simp add: accepts_v2_def nothing_yet_def long_enough_def)
    from Cons.prems have "int (length (collected st)) + 1 \<ge> g"
      using assms(1) by (simp add: nothing_yet_def)
    moreover from Cons.prems True have "took_one (accept r (pull r st))"
      by (simp add: took_one_def nothing_yet_def accept_def pull_def)
    ultimately show ?thesis using acc by simp
  next
    case False
    then have nacc: "\<not> accepts_v2 d st r"
      by (simp add: accepts_v2_def long_enough_def)
    from Cons.prems False have "nothing_yet (pull r st)"
      by (simp add: nothing_yet_def pull_def)
    from Cons.IH[OF this] nacc show ?thesis by simp
  qed
qed

lemma collect_all_nonpositive:
  assumes "g \<le> 0" and "nothing_yet st"
  shows "nothing_yet (fst (collect_all (accepts_v2 d) g st gens)) \<or>
         (snd (collect_all (accepts_v2 d) g st gens) = Break \<and>
          took_one (fst (collect_all (accepts_v2 d) g st gens)))"
  using assms(2)
proof (induction gens arbitrary: st)
  case Nil
  then show ?case by simp
next
  case (Cons gen gens)
  let ?s0 = "st\<lparr>calls := Suc (calls st)\<rparr>"
  obtain s1 sig where c: "collect (accepts_v2 d) g ?s0 (items gen) (ending gen) = (s1, sig)"
    by (cases "collect (accepts_v2 d) g ?s0 (items gen) (ending gen)")
  from Cons.prems have "nothing_yet ?s0" by (simp add: nothing_yet_def)
  from collect_nonpositive[OF assms(1) this, of d "items gen" "ending gen"] c
  have alt: "nothing_yet s1 \<or> (sig = Some StopIteration \<and> took_one s1)" by simp
  show ?case
  proof (cases "sig = Some StopIteration")
    case True
    have "\<not> (nothing_yet s1 \<and> took_one s1)"
      by (auto simp: nothing_yet_def took_one_def)
    with alt True c show ?thesis by auto
  next
    case False
    with alt have n: "nothing_yet s1" by simp
    show ?thesis
    proof (cases sig)
      case None
      with c Cons.IH[OF n] show ?thesis by simp
    next
      case (Some e)
      with False have e: "e \<noteq> StopIteration" by simp
      show ?thesis
      proof (cases "is_Exception e")
        case True
        with c Some e Cons.IH[OF n] show ?thesis by simp
      next
        case False
        with c Some e n show ?thesis by simp
      qed
    qed
  qed
qed

text \<open>
  C10, as the code has it. In a run of \<^verbatim>\<open>generate_spanish_paragraphs_v2.py\<close> with a
  quota of zero or less in which the loop receives at least one record of at least
  \<^verbatim>\<open>MIN_PARAGRAPH_LEN\<close> characters, exactly one record is accepted, it is the last
  one received, and the loop is left by \<^verbatim>\<open>break\<close>. The result has one row, which is
  more than the quota; it is one more than the quota only when the quota is zero.
\<close>

theorem nonpositive_quota_takes_one:
  assumes "goal \<le> 0"
    and "loop_v2 domain goal init gens = (st, e)"
    and "\<exists>x\<in>set (pulls st). MIN_PARAGRAPH_LEN \<le> int (length (text_of x))"
  shows "\<exists>r. collected st = [r] \<and> MIN_PARAGRAPH_LEN \<le> int (length (text_of r)) \<and>
             last (pulls st) = r \<and> e = Break \<and>
             main_v2 domain goal gens = Inr \<lparr>printed = [Summary 1 goal, Saved], csv = [r]\<rparr> \<and>
             goal < int (length (collected st)) \<and>
             (int (length (collected st)) = goal + 1 \<longleftrightarrow> goal = 0)"
proof -
  have "nothing_yet init" by (simp add: nothing_yet_def init_def)
  from collect_all_nonpositive[OF assms(1) this, of domain gens] assms(2)
  have "nothing_yet st \<or> (e = Break \<and> took_one st)"
    by (simp add: loop_v2_collect)
  moreover from assms(3) have "\<not> nothing_yet st"
    by (auto simp: nothing_yet_def long_enough_def)
  ultimately have b: "e = Break" and "took_one st" by simp_all
  then obtain r where r: "collected st = [r]" "long_enough r" "last (pulls st) = r"
    by (auto simp: took_one_def)
  from assms(1,2) b r have "main_v2 domain goal gens =
      Inr \<lparr>printed = [Summary 1 goal, Saved], csv = [r]\<rparr>"
    by (simp add: main_v2_def)
  with r b assms(1) show ?thesis
    by (auto simp: long_enough_def)
qed

section \<open>The run over the two feeds with a small quota\<close>

lemma loop_v2_two_feeds_first: "g \<le> 1 \<Longrightarrow> loop_v2 (take 12) g init two_feeds = (first_only, Break)"
  by (simp add: two_feeds_def first_only_def init_def sample_text_length lit_def
      MIN_PARAGRAPH_LEN_def)

theorem nonpositive_quota_takes_one_witness:
  "(0::int) \<le> 0 \<and>
   loop_v2 (take 12) 0 init two_feeds = (first_only, Break) \<and>
   (\<exists>x\<in>set (pulls first_only). MIN_PARAGRAPH_LEN \<le> int (length (text_of x))) \<and>
   main_v2 (take 12) 0 two_feeds =
     Inr \<lparr>printed = [Summary 1 0, Saved], csv = [(sample_text, ''noticia'', lit ''http://a.es/1'')]\<rparr> \<and>
   int (length (collected first_only)) = 0 + 1"
proof -
  have h1: "(0::int) \<le> 0" by simp
  have h2: "loop_v2 (take 12) 0 init two_feeds = (first_only, Break)"
    by (rule loop_v2_two_feeds_first) simp
  have h3: "\<exists>x\<in>set (pulls first_only). MIN_PARAGRAPH_LEN \<le> int (length (text_of x))"
    by (simp add: first_only_def sample_text_length MIN_PARAGRAPH_LEN_def)
  from nonpositive_quota_takes_one[OF h1 h2 h3] obtain r where
    r: "collected first_only = [r]"
    and m: "main_v2 (take 12) 0 two_feeds = Inr \<lparr>printed = [Summary 1 0, Saved], csv = [r]\<rparr>"
    and n: "int (length (collected first_only)) = 0 + 1"
    by auto
  from r have "r = (sample_text, ''noticia'', lit ''http://a.es/1'')"
    by (simp add: first_only_def)
  with h1 h2 h3 m n show ?thesis by simp
qed

text \<open>
  C10 as stated fails for a negative quota: with the quota \<open>- 1\<close> the run over the two
  feeds takes one record, and one is not one more than the quota.
\<close>

theorem nonpositive_quota_counterexample:
  "loop_v2 (take 12) (- 1) init two_feeds = (first_only, Break) \<and>
   main_v2 (take 12) (- 1) two_feeds =
     Inr \<lparr>printed = [Summary 1 (- 1), Saved], csv = collected first_only\<rparr> \<and>
   int (length (collected first_only)) \<noteq> - 1 + 1"
proof -
  have l: "loop_v2 (take 12) (- 1) init two_feeds = (first_only, Break)"
    by (rule loop_v2_two_feeds_first) simp
  then show ?thesis
    by (simp add: main_v2_def first_only_def)
qed

section \<open>Quota, and what the adapters return\<close>

text \<open>
  For a quota of at least one the result never has more rows than the quota, and
  when it has as many, the loop was left by \<^verbatim>\<open>break\<close> right after the record that
  filled it: that record is the last one received, and the producers after the
  current one were not called.
\<close>

lemma quota_respected_v2:
  assumes "1 \<le> goal"
  shows "int (length (collected (fst (loop_v2 domain goal init gens)))) \<le> goal \<and>
         (int (length (collected (fst (loop_v2 domain goal init gens)))) = goal \<longrightarrow>
            snd (loop_v2 domain goal init gens) = Break \<and>
            pulls (fst (loop_v2 domain goal init gens)) \<noteq> [] \<and>
            last (pulls (fst (loop_v2 domain goal init gens))) =
              last (collected (fst (loop_v2 domain goal init gens))))"
proof -
  have "int (length (collected init)) < goal" using assms by (simp add: init_def)
  from collect_all_quota[OF this, of "accepts_v2 domain" gens] show ?thesis
    by (simp add: loop_v2_collect)
qed

lemma quota_respected:
  assumes "1 \<le> limit"
  shows "int (length (collected (fst (loop limit init gens)))) \<le> limit \<and>
         (int (length (collected (fst (loop limit init gens)))) = limit \<longrightarrow>
            snd (loop limit init gens) = Break \<and>
            pulls (fst (loop limit init gens)) \<noteq> [] \<and>
            last (pulls (fst (loop limit init gens))) =
              last (collected (fst (loop limit init gens))))"
proof -
  have "int (length (collected init)) < limit" using assms by (simp add: init_def)
  from collect_all_quota[OF this, of accepts gens] show ?thesis
    by (simp add: loop_collect)
qed

lemma break_skips_the_rest:
  assumes "loop_v2 domain goal init gens = (st, Break)"
  shows "\<exists>pre gen post. gens = pre @ gen # post \<and>
           loop_v2 domain goal init (pre @ [gen]) = (st, Break) \<and> calls st = length pre + 1"
  using collect_all_break[of "accepts_v2 domain" goal init gens st] assms
  by (simp add: loop_v2_collect init_def)

text \<open>
  C1 at the quota 0. The list is empty, which is as long as the quota, and the loop
  still receives a record and appends it: the result has one row.
\<close>

theorem quota_zero_overshoot:
  "loop_v2 domain 0 init [one_shot (Inr (sample_text, ''novela'', lit ''http://c.es/1''))] =
     (\<lparr>collected = [(sample_text, ''novela'', lit ''http://c.es/1'')],
       seen_urls = {lit ''http://c.es/1''},
       pulls = [(sample_text, ''novela'', lit ''http://c.es/1'')], calls = 1\<rparr>, Break) \<and>
   main_v2 domain 0 [one_shot (Inr (sample_text, ''novela'', lit ''http://c.es/1''))] =
     Inr \<lparr>printed = [Summary 1 0, Saved], csv = [(sample_text, ''novela'', lit ''http://c.es/1'')]\<rparr>"
  by (simp add: main_v2_def one_shot_def init_def sample_text_length MIN_PARAGRAPH_LEN_def)

lemma first_long_paragraph_v2_empty: "first_long_paragraph_v2 [] MIN_PARAGRAPH_LEN = []"
  by (simp add: first_long_paragraph_v2_def strip_def MIN_PARAGRAPH_LEN_def)

lemma first_long_paragraph_empty: "first_long_paragraph [] 120 = []"
  by (simp add: first_long_paragraph_def split_nl_def strip_def)

text \<open>
  The single-document adapters do fail when the request fails: an exception of
  \<^verbatim>\<open>requests.get\<close> passes through, and a status other than 200 raises
  \<^verbatim>\<open>RuntimeError\<close>.
\<close>

lemma adapters_fail_on_failed_fetch:
  "get url = Inl e \<Longrightarrow> paragraph_from_cervantes get p_texts url = Inl e"
  "get url = Inr resp \<Longrightarrow> status_code resp \<noteq> 200 \<Longrightarrow>
     paragraph_from_cervantes get p_texts url = Inl RuntimeError"
  "get (url @ lit ''?action=raw'') = Inl e \<Longrightarrow> paragraph_from_wikisource get url = Inl e"
  "get (url @ lit ''?action=raw'') = Inr resp \<Longrightarrow> status_code resp \<noteq> 200 \<Longrightarrow>
     paragraph_from_wikisource get url = Inl RuntimeError"
  "get (gutenberg_files_url gid) = Inl e \<Longrightarrow> paragraph_from_gutenberg get gid = Inl e"
  "get (gutenberg_files_url gid) = Inr resp \<Longrightarrow> status_code resp \<noteq> 200 \<Longrightarrow>
     paragraph_from_gutenberg get gid = Inl RuntimeError"
  by (simp_all add: paragraph_from_cervantes_def paragraph_from_wikisource_def
      paragraph_from_gutenberg_def)

lemma gutenberg_v2_never_empty:
  "gutenberg_try get urls = Inr (par, tipo, url) \<Longrightarrow> par \<noteq> []"
  by (induction urls) (auto simp: Let_def split: sum.splits if_splits)

text \<open>
  C6 on a page without a paragraph of 120 characters (the empty page, answered with
  status 200). The adapters for Cervantes and Wikisource, and the Gutenberg adapter
  of the older files, return a record with the empty text; the Gutenberg adapter of
  \<^verbatim>\<open>generate_spanish_paragraphs_v2.py\<close> raises \<^verbatim>\<open>RuntimeError\<close> on the same page.
\<close>

theorem empty_text_record:
  "paragraph_from_cervantes empty_page (\<lambda>t. []) url = Inr ([], ''novela'', url) \<and>
   paragraph_from_wikisource empty_page url = Inr ([], ''cuento'', url) \<and>
   paragraph_from_gutenberg empty_page gid = Inr ([], ''novela'', gutenberg_files_url gid) \<and>
   paragraph_from_gutenberg_v2 empty_page gid = Inl RuntimeError"
  by (simp add: paragraph_from_cervantes_def paragraph_from_wikisource_def
      paragraph_from_gutenberg_def paragraph_from_gutenberg_v2_def empty_page_def
      first_long_paragraph_v2_empty first_long_paragraph_empty)

text \<open>
  C7 on a feed with one entry whose link is redirected. The record of the feed
  adapter carries the link of the entry, not the URL of the response; the adapter
  for the random short story, on the same site, carries the URL of the response.
\<close>

theorem rss_record_has_entry_link:
  "paragraphs_from_rss_v2 redirecting (\<lambda>t. [t]) (\<lambda>f. Inr [Some (lit ''http://a.es/link'')]) feed tipo =
     \<lparr>items = [(sample_text, tipo, lit ''http://a.es/link'')], ending = Returns\<rparr> \<and>
   paragraphs_from_rss redirecting (\<lambda>t. [t]) (\<lambda>f. Inr [Some (lit ''http://a.es/link'')]) feed tipo =
     \<lparr>items = [(sample_text, tipo, lit ''http://a.es/link'')], ending = Returns\<rparr> \<and>
   random_cuento_paragraph_with first_long_paragraph_v2 redirecting (\<lambda>t. [t]) =
     Inr (sample_text, ''cuento'', lit ''http://a.es/final'') \<and>
   lit ''http://a.es/link'' \<noteq> lit ''http://a.es/final''"
proof -
  have ne: "sample_text \<noteq> []" using sample_text_length by auto
  have l: "lit ''http://a.es/link'' \<noteq> []" by (simp add: lit_def)
  show ?thesis
    by (simp add: paragraphs_from_rss_v2_def paragraphs_from_rss_def paragraphs_from_rss_with_def
        random_cuento_paragraph_with_def redirecting_def yield_def sample_text_v2 sample_text_v1
        ne l)
       (simp add: lit_def)
qed

section \<open>Lines and the matches of the pattern\<close>

lemma isspace_NL: "isspace NL"
  by (simp add: isspace_def NL_def)

lemma split_nl_from_nonempty: "split_nl_from cur s \<noteq> []"
  by (induction s arbitrary: cur) simp_all

lemma split_nl_from_join:
  "join [NL] (split_nl_from cur s) = rev cur @ s"
proof (induction s arbitrary: cur)
  case Nil
  show ?case by simp
next
  case (Cons c cs)
  show ?case
  proof (cases "c = NL")
    case True
    obtain p ps where "split_nl_from [] cs = p # ps"
      using split_nl_from_nonempty[of "[]" cs] by (cases "split_nl_from [] cs") auto
    with True Cons.IH[of "[]"] show ?thesis by simp
  next
    case False
    with Cons.IH[of "c # cur"] show ?thesis by simp
  qed
qed

lemma split_nl_from_lines:
  "NL \<notin> set cur \<Longrightarrow> \<forall>l\<in>set (split_nl_from cur s). NL \<notin> set l"
proof (induction s arbitrary: cur)
  case Nil
  then show ?case by simp
next
  case (Cons c cs)
  show ?case
  proof (cases "c = NL")
    case True
    have "\<forall>l\<in>set (split_nl_from [] cs). NL \<notin> set l"
      by (rule Cons.IH) simp
    with True Cons.prems show ?thesis by simp
  next
    case False
    with Cons.prems have "\<forall>l\<in>set (split_nl_from (c # cur) cs). NL \<notin> set l"
      by (intro Cons.IH) simp
    with False show ?thesis by simp
  qed
qed

lemma re_split_line:
  "NL \<notin> set l \<Longrightarrow> re_split_blank cur (l @ rest) = re_split_blank (rev l @ cur) rest"
  by (induction l arbitrary: cur) simp_all

lemma match_blank_no_newline: "NL \<notin> set l \<Longrightarrow> match_blank l = None"
  by (auto simp: match_blank_def dest: set_takeWhileD)

lemma match_blank_text_line:
  assumes "NL \<notin> set l" and "\<not> blank l"
  shows "match_blank (l @ rest) = None"
proof -
  from assms(2) obtain x where x: "x \<in> set l" "\<not> isspace x"
    by (auto simp: blank_def list_all_iff)
  then have "takeWhile isspace (l @ rest) = takeWhile isspace l"
    by (rule takeWhile_append1)
  with assms(1) show ?thesis
    by (auto simp: match_blank_def dest: set_takeWhileD)
qed

lemma match_blank_blank_line:
  assumes "blank l"
  shows "match_blank (l @ NL # rest) =
           Some (case match_blank rest of Some r \<Rightarrow> r | None \<Rightarrow> rest)"
proof -
  let ?w = "takeWhile isspace rest"
  let ?d = "dropWhile (\<lambda>c. c \<noteq> NL) (rev ?w)"
  from assms have all: "\<And>x. x \<in> set l \<Longrightarrow> isspace x"
    by (simp add: blank_def list_all_iff)
  then have "takeWhile isspace (l @ NL # rest) = l @ takeWhile isspace (NL # rest)"
    by (rule takeWhile_append2)
  then have tw: "takeWhile isspace (l @ NL # rest) = l @ NL # ?w"
    by (simp add: isspace_NL)
  show ?thesis
  proof (cases "?d = []")
    case True
    then have "\<And>x. x \<in> set (rev ?w) \<Longrightarrow> x \<noteq> NL"
      by (simp add: dropWhile_eq_Nil_conv)
    then have "dropWhile (\<lambda>c. c \<noteq> NL) (rev ?w @ NL # rev l) = dropWhile (\<lambda>c. c \<noteq> NL) (NL # rev l)"
      by (rule dropWhile_append2)
    with True tw show ?thesis
      by (simp add: match_blank_def)
  next
    case False
    then obtain x where "x \<in> set (rev ?w)" "\<not> x \<noteq> NL"
      by (auto simp: dropWhile_eq_Nil_conv)
    then have "dropWhile (\<lambda>c. c \<noteq> NL) (rev ?w @ NL # rev l) = ?d @ NL # rev l"
      by (rule dropWhile_append1)
    with False tw show ?thesis
      by (auto simp: match_blank_def Let_def)
  qed
qed

section \<open>The pattern cuts at the blank lines\<close>

lemma re_split_last_line: "NL \<notin> set l \<Longrightarrow> re_split_blank cur l = [rev cur @ l]"
  using re_split_line[of l cur "[]"] by simp

lemma re_split_blocks:
  "(\<forall>c l. cur = rev c @ l \<longrightarrow> NL \<notin> set l \<longrightarrow> (\<forall>x\<in>set ls. NL \<notin> set x) \<longrightarrow>
      re_split_blank c (join [NL] (l # ls)) = blocks_in blank cur ls)"
  "(ms \<noteq> [] \<longrightarrow> (\<forall>x\<in>set ms. NL \<notin> set x) \<longrightarrow>
      re_split_blank [] (after_blank (join [NL] ms)) = blocks_after blank ms)"
proof (induction blank cur ls and blank ms rule: blocks_in_blocks_after.induct)
  case (1 cur)
  show ?case by (simp add: re_split_last_line)
next
  case (2 cur l')
  show ?case
  proof (intro allI impI)
    fix c l
    assume cur: "cur = rev c @ l" and l: "NL \<notin> set l" and ls: "\<forall>x\<in>set [l']. NL \<notin> set x"
    then have l': "NL \<notin> set l'" by simp
    have "re_split_blank c (join [NL] [l, l']) = re_split_blank (rev l @ c) (NL # l')"
      using re_split_line[OF l, of c "NL # l'"] by simp
    also have "\<dots> = re_split_blank (NL # rev l @ c) l'"
      using match_blank_no_newline[OF l'] by simp
    also have "\<dots> = [rev (NL # rev l @ c) @ l']"
      using l' by (rule re_split_last_line)
    finally show "re_split_blank c (join [NL] [l, l']) = blocks_in blank cur [l']"
      using cur by simp
  qed
next
  case (3 cur l' l'' ls)
  show ?case
  proof (intro allI impI)
    fix c l
    assume cur: "cur = rev c @ l" and l: "NL \<notin> set l"
      and ls: "\<forall>x\<in>set (l' # l'' # ls). NL \<notin> set x"
    then have l': "NL \<notin> set l'" and rest: "\<forall>x\<in>set (l'' # ls). NL \<notin> set x" by simp_all
    let ?tail = "join [NL] (l'' # ls)"
    have j: "join [NL] (l # l' # l'' # ls) = l @ NL # l' @ NL # ?tail" by simp
    have step: "re_split_blank c (join [NL] (l # l' # l'' # ls)) =
        re_split_blank (rev l @ c) (NL # l' @ NL # ?tail)"
      unfolding j using re_split_line[OF l, of c "NL # l' @ NL # ?tail"] by simp
    show "re_split_blank c (join [NL] (l # l' # l'' # ls)) = blocks_in blank cur (l' # l'' # ls)"
    proof (cases "blank l'")
      case True
      then have m: "match_blank (l' @ NL # ?tail) = Some (after_blank ?tail)"
        unfolding after_blank_def by (rule match_blank_blank_line)
      from 3(1)[OF True] rest
      have "re_split_blank [] (after_blank ?tail) = blocks_after blank (l'' # ls)" by simp
      with step m True cur show ?thesis by simp
    next
      case False
      with l' have m: "match_blank (l' @ NL # ?tail) = None"
        by (rule match_blank_text_line)
      have "cur @ NL # l' = rev (NL # rev l @ c) @ l'" using cur by simp
      with 3(2)[OF False] l' rest
      have "re_split_blank (NL # rev l @ c) (join [NL] (l' # l'' # ls)) =
          blocks_in blank (cur @ NL # l') (l'' # ls)"
        by blast
      with step m False show ?thesis by simp
    qed
  qed
next
  case 4
  show ?case by simp
next
  case (5 l)
  show ?case
    by (simp add: after_blank_def match_blank_no_newline re_split_last_line)
next
  case (6 l l' ls)
  show ?case
  proof (intro impI)
    assume ls: "\<forall>x\<in>set (l # l' # ls). NL \<notin> set x"
    then have l: "NL \<notin> set l" and rest: "\<forall>x\<in>set (l' # ls). NL \<notin> set x" by simp_all
    let ?tail = "join [NL] (l' # ls)"
    have j: "join [NL] (l # l' # ls) = l @ NL # ?tail" by simp
    show "re_split_blank [] (after_blank (join [NL] (l # l' # ls))) = blocks_after blank (l # l' # ls)"
    proof (cases "blank l")
      case True
      then have "match_blank (l @ NL # ?tail) = Some (after_blank ?tail)"
        unfolding after_blank_def by (rule match_blank_blank_line)
      then have "after_blank (join [NL] (l # l' # ls)) = after_blank ?tail"
        unfolding j by (simp add: after_blank_def)
      with 6(1)[OF True] rest True show ?thesis by simp
    next
      case False
      with l have "match_blank (l @ NL # ?tail) = None"
        by (rule match_blank_text_line)
      then have "after_blank (join [NL] (l # l' # ls)) = join [NL] (l # l' # ls)"
        unfolding j by (simp add: after_blank_def)
      moreover from 6(2)[OF False] l rest
      have "re_split_blank [] (join [NL] (l # l' # ls)) = blocks_in blank l (l' # ls)"
        by simp
      ultimately show ?thesis using False by simp
    qed
  qed
qed

lemma re_split_blank_blocks: "re_split_blank [] s = blocks_between blank s"
proof (cases "split_nl s")
  case Nil
  then show ?thesis
    using split_nl_from_nonempty [of "[]" s] by (simp add: split_nl_def)
next
  case (Cons l ls)
  have lines: "\<forall>x\<in>set (l # ls). NL \<notin> set x"
    using split_nl_from_lines [of "[]" s] Cons by (simp add: split_nl_def)
  have "join [NL] (l # ls) = s"
    using split_nl_from_join [of "[]" s] Cons by (simp add: split_nl_def)
  with re_split_blocks(1) [of l ls, rule_format, of "[]" l] lines
  have "re_split_blank [] s = blocks_in blank l ls" by simp
  with Cons show ?thesis by (simp add: blocks_between_def)
qed

section \<open>The extractor\<close>

lemma first_long_find:
  "first_long m ps =
     (case find (\<lambda>p. m \<le> int (length p)) (map strip ps) of None \<Rightarrow> [] | Some p \<Rightarrow> p)"
  by (induction ps) simp_all

lemma split_nl_from_line:
  "NL \<notin> set l \<Longrightarrow> split_nl_from cur (l @ rest) = split_nl_from (rev l @ cur) rest"
  by (induction l arbitrary: cur) simp_all

lemma split_nl_two_blocks:
  assumes "NL \<notin> set a" and "NL \<notin> set b"
  shows "split_nl (a @ NL # NL # b) = [a, [], b]"
proof -
  have "split_nl_from [] (a @ NL # NL # b) = split_nl_from (rev a) (NL # NL # b)"
    using split_nl_from_line[OF assms(1), of "[]" "NL # NL # b"] by simp
  also have "\<dots> = a # [] # split_nl_from [] b" by simp
  also have "split_nl_from [] b = [b]"
    using split_nl_from_line[OF assms(2), of "[]" "[]"] by simp
  finally show ?thesis by (simp add: split_nl_def)
qed

lemma re_split_two_blocks:
  assumes "NL \<notin> set a" and "NL \<notin> set b"
  shows "re_split_blank [] (a @ NL # NL # b) = [a, b]"
proof -
  have "blank []" by (simp add: blank_def)
  from match_blank_blank_line[OF this, of b]
  have m: "match_blank (NL # b) = Some b"
    using match_blank_no_newline[OF assms(2)] by simp
  have "re_split_blank [] (a @ NL # NL # b) = re_split_blank (rev a) (NL # NL # b)"
    using re_split_line[OF assms(1), of "[]" "NL # NL # b"] by simp
  also have "\<dots> = a # re_split_blank [] b" using m by simp
  also have "re_split_blank [] b = [b]"
    using re_split_last_line[OF assms(2), of "[]"] by simp
  finally show ?thesis .
qed

text \<open>
  C4, as the code has it. \<^verbatim>\<open>first_long_paragraph\<close> of
  \<^verbatim>\<open>generate_spanish_paragraphs_v2.py\<close> returns the first block whose trimmed length
  is at least \<open>min_len\<close>, and the empty string when there is none, where the blocks
  are separated by one or more consecutive blank lines and a line with whitespace only
  is blank as well. \<^verbatim>\<open>first_long_paragraph\<close> of
  \<^verbatim>\<open>generate_spanish_paragraphs_fixed.py\<close> returns the first line with that
  property: its candidates are the single lines of the text. On a text of two lines
  with an empty line between them, the first too short and the second long enough,
  both return the second, trimmed. The function of
  \<^verbatim>\<open>generate_spanish_paragraphs.py\<close>, stored with the separator \<^verbatim>\<open>'\\n'\<close> in
  a file that does not parse, is not part of the statement.
\<close>

theorem extractor_blocks:
  "first_long_paragraph_v2 s min_len =
     (case find (\<lambda>p. min_len \<le> int (length p)) (map strip (blocks_between blank s)) of
        None \<Rightarrow> [] | Some p \<Rightarrow> p) \<and>
   first_long_paragraph s min_len =
     (case find (\<lambda>p. min_len \<le> int (length p)) (map strip (split_nl s)) of
        None \<Rightarrow> [] | Some p \<Rightarrow> p) \<and>
   join [NL] (split_nl s) = s \<and> list_all (\<lambda>l. NL \<notin> set l) (split_nl s) \<and>
   (NL \<notin> set a \<and> NL \<notin> set b \<and> int (length (strip a)) < min_len \<and>
    min_len \<le> int (length (strip b)) \<longrightarrow>
      first_long_paragraph_v2 (a @ NL # NL # b) min_len = strip b \<and>
      first_long_paragraph (a @ NL # NL # b) min_len = strip b)"
proof (intro conjI impI)
  show "first_long_paragraph_v2 s min_len =
     (case find (\<lambda>p. min_len \<le> int (length p)) (map strip (blocks_between blank s)) of
        None \<Rightarrow> [] | Some p \<Rightarrow> p)"
    by (simp add: first_long_paragraph_v2_def re_split_blank_blocks first_long_find)
  show "first_long_paragraph s min_len =
     (case find (\<lambda>p. min_len \<le> int (length p)) (map strip (split_nl s)) of
        None \<Rightarrow> [] | Some p \<Rightarrow> p)"
    by (simp add: first_long_paragraph_def first_long_find)
  show "join [NL] (split_nl s) = s"
    using split_nl_from_join[of "[]" s] by (simp add: split_nl_def)
  show "list_all (\<lambda>l. NL \<notin> set l) (split_nl s)"
    using split_nl_from_lines[of "[]" s] by (simp add: split_nl_def list_all_iff)
next
  assume h: "NL \<notin> set a \<and> NL \<notin> set b \<and> int (length (strip a)) < min_len \<and>
    min_len \<le> int (length (strip b))"
  then have a: "NL \<notin> set a" and b: "NL \<notin> set b"
    and short: "int (length (strip a)) < min_len" and long: "min_len \<le> int (length (strip b))"
    by simp_all
  from short have pos: "0 < min_len" by simp
  show "first_long_paragraph_v2 (a @ NL # NL # b) min_len = strip b"
    using short long by (simp add: first_long_paragraph_v2_def re_split_two_blocks[OF a b])
  show "first_long_paragraph (a @ NL # NL # b) min_len = strip b"
    using short long pos by (simp add: first_long_paragraph_def split_nl_two_blocks[OF a b] strip_def)
qed

lemma sample_text_no_newline: "NL \<notin> set sample_text"
  by (simp add: sample_text_def lit_def NL_def)

theorem extractor_blocks_witness:
  "lit ''short\<newline>\<newline>This is a sufficiently long paragraph text exceeding one hundred twenty characters in total length to pass the minimum threshold check.'' =
     lit ''short'' @ NL # NL # sample_text \<and>
   NL \<notin> set (lit ''short'') \<and> NL \<notin> set sample_text \<and>
   int (length (strip (lit ''short''))) < 120 \<and> 120 \<le> int (length (strip sample_text)) \<and>
   first_long_paragraph_v2 (lit ''short'' @ NL # NL # sample_text) 120 = sample_text \<and>
   first_long_paragraph (lit ''short'' @ NL # NL # sample_text) 120 = sample_text"
proof -
  have e: "lit ''short\<newline>\<newline>This is a sufficiently long paragraph text exceeding one hundred twenty characters in total length to pass the minimum threshold check.'' =
     lit ''short'' @ NL # NL # sample_text"
    by (simp add: lit_def sample_text_def NL_def)
  have a: "NL \<notin> set (lit ''short'')" by (simp add: lit_def NL_def)
  have b: "NL \<notin> set sample_text" by (rule sample_text_no_newline)
  have c: "int (length (strip (lit ''short''))) < 120"
    by (simp add: lit_def strip_def isspace_def)
  have d: "120 \<le> int (length (strip sample_text))"
    by (simp add: sample_text_strip sample_text_length)
  from a b c d have h: "NL \<notin> set (lit ''short'') \<and> NL \<notin> set sample_text \<and>
      int (length (strip (lit ''short''))) < 120 \<and> 120 \<le> int (length (strip sample_text))"
    by blast
  note t = extractor_blocks[of "[]" 120 "lit ''short''" sample_text]
  from t[THEN conjunct2, THEN conjunct2, THEN conjunct2, THEN conjunct2, rule_format, OF h]
  have r: "first_long_paragraph_v2 (lit ''short'' @ NL # NL # sample_text) 120 = sample_text \<and>
      first_long_paragraph (lit ''short'' @ NL # NL # sample_text) 120 = sample_text"
    by (simp add: sample_text_strip)
  from e a b c d r show ?thesis by blast
qed

text \<open>
  C4 as stated fails on \<^verbatim>\<open>generate_spanish_paragraphs_fixed.py\<close> and on
  \<^verbatim>\<open>generate_spanish_paragraphs_v2.py\<close>. A text of two lines of four characters
  with no empty line between them is one block of nine characters, and the
  \<^verbatim>\<open>_fixed\<close> file returns nothing for \<open>min_len = 9\<close>, since no single line is
  that long. A text of two one-letter lines with a line of one space between them has
  no newline-only line and is one block of five characters, and the \<^verbatim>\<open>_v2\<close> file
  returns nothing for \<open>min_len = 5\<close>, since it cuts at the line with the space.
\<close>

theorem extractor_counterexample:
  "extract_first_paragraph (lit ''aaaa\<newline>bbbb'') 9 = Some (lit ''aaaa\<newline>bbbb'') \<and>
   first_long_paragraph (lit ''aaaa\<newline>bbbb'') 9 = [] \<and>
   extract_first_paragraph (lit ''a\<newline> \<newline>b'') 5 = Some (lit ''a\<newline> \<newline>b'') \<and>
   first_long_paragraph_v2 (lit ''a\<newline> \<newline>b'') 5 = []"
  by (simp add: extract_first_paragraph_def blocks_between_def split_nl_def
      first_long_paragraph_def first_long_paragraph_v2_def match_blank_def
      strip_def isspace_def lit_def NL_def)

end
